theory Spec2Isabelle
  imports Main "HOL-Library.Word"
begin

unbundle bit_operations_syntax

section \<open>The connection of conn.go\<close>

text \<open>
  A shallow embedding of \<^verbatim>\<open>conn.go\<close>: the per-peer connection of a reliable datagram
  protocol, with a send ring \<^verbatim>\<open>wq\<close>/\<^verbatim>\<open>wqe\<close>, a receive ring \<^verbatim>\<open>rq\<close> and the cursors
  \<^verbatim>\<open>wi\<close>, \<^verbatim>\<open>ri\<close>, \<^verbatim>\<open>oui\<close>, \<^verbatim>\<open>lui\<close>. Sequence numbers are Go's \<^verbatim>\<open>uint16\<close>, ring entries
  are \<^verbatim>\<open>uint32\<close>; both are machine words here, so every \<open>+\<close> and \<open>-\<close> wraps as in Go.

  A method that reads the clock takes the time as its argument \<open>now\<close>: every \<^verbatim>\<open>time.Now()\<close> of
  one call reads the same instant. The retransmit loop (\<^verbatim>\<open>Run\<close>,
  \<^verbatim>\<open>retransmitUnackedPackets\<close>) is left out: it transmits retained buffers and updates their
  \<^verbatim>\<open>written\<close> and \<^verbatim>\<open>resent\<close> fields, which nothing below reads.
\<close>

type_synonym u16 = "16 word"
type_synonym u32 = "32 word"
type_synonym byte = "8 word"
type_synonym time = nat

subsection \<open>Errors\<close>

datatype error = EOF | ErrShortWrite | ErrTransport | Errorf string error

text \<open>Modelled from the spec: \<^verbatim>\<open>isEOF\<close> is declared in a file that is not part of the
  sources at hand; the spec calls the errors it accepts "EOF-like" transport errors.\<close>

definition isEOF :: "error \<Rightarrow> bool" where
  "isEOF e = (e = EOF)"

subsection \<open>Packets, buffers and slots\<close>

text \<open>The type \<^verbatim>\<open>PacketHeader\<close> is declared outside \<^verbatim>\<open>conn.go\<close>; these are the fields
  \<^verbatim>\<open>conn.go\<close> reads and writes.\<close>

record PacketHeader =
  Sequence :: u16
  ACK :: u16
  ACKBits :: u32
  Unordered :: bool
  Empty :: bool

definition zeroHeader :: PacketHeader where
  "zeroHeader = \<lparr>Sequence = 0, ACK = 0, ACKBits = 0, Unordered = False, Empty = False\<rparr>"

text \<open>
  A pooled buffer after \<^verbatim>\<open>b.B = header.AppendTo(b.B); b.B = append(b.B, buf...)\<close>: the
  header followed by the payload. The wire encoding (\<^verbatim>\<open>AppendTo\<close>) is outside \<^verbatim>\<open>conn.go\<close>, so
  the buffer keeps the header as it is.
\<close>

datatype Buffer = Buffer (hdr: PacketHeader) (payload: "byte list")

record writtenPacket =
  buf :: "Buffer option"
  acked :: bool
  written :: time
  resent :: u32

definition zeroPacket :: writtenPacket where
  "zeroPacket = \<lparr>buf = None, acked = False, written = 0, resent = 0\<rparr>"

text \<open>
  The fields of \<^verbatim>\<open>Conn\<close> that the methods below use. The three collaborators are kept as
  what can be observed of them:
  \<^item> \<open>pool\<close>: the buffers handed back with \<^verbatim>\<open>pool.Put\<close>, oldest first;
  \<^item> \<open>conn\<close>: the datagrams passed to \<^verbatim>\<open>conn.WriteTo\<close>, oldest first;
  \<^item> \<open>ph\<close>: \<open>None\<close> for a nil packet handler, otherwise the calls
    \<^verbatim>\<open>ph(addr, sequence, buf)\<close> made so far, oldest first.
  \<open>exit\<close> is true once the channel \<^verbatim>\<open>exit\<close> has been closed.
\<close>

record Conn =
  die :: bool
  exit :: bool
  lui :: u16
  oui :: u16
  ls :: time
  wi :: u16
  ri :: u16
  wq :: "u32 list"
  rq :: "u32 list"
  wqe :: "writtenPacket list"
  pool :: "Buffer list"
  conn :: "Buffer list"
  ph :: "(u16 \<times> byte list) list option"

subsection \<open>Outcomes of a call\<close>

text \<open>
  A Go call returns, panics, or never comes back. Each method is modelled as run by one
  goroutine on the state it finds under the mutex:
  \<^item> \<open>Ret x\<close>: the call returns \<open>x\<close> (with the state it leaves behind);
  \<^item> \<open>Panic\<close>: a run-time panic (a zero modulus, an index out of range);
  \<^item> \<open>Parked p\<close>: the caller sits in \<^verbatim>\<open>ouc.Wait()\<close> and is not woken again; \<open>p\<close> is the state
    it has left behind, with everything it wrote before it waited.

  \<^verbatim>\<open>Wait\<close> gives up the mutex until another goroutine broadcasts, and returns with the mutex
  held again, on the state the other goroutines have made by then. A method that can wait
  takes the list \<open>wakes\<close> of these states: the state the caller finds the first time it is
  woken, the second time, and so on. With \<open>wakes = []\<close> the caller is followed alone and is
  never woken. Nothing is assumed of the states in \<open>wakes\<close>: what is proved for every list
  holds whatever the other goroutines do while the caller waits.
\<close>

datatype 'a go = Panic | Parked Conn | Ret 'a

fun andThen :: "'a go \<Rightarrow> ('a \<Rightarrow> 'b go) \<Rightarrow> 'b go" where
  "andThen Panic f = Panic"
| "andThen (Parked p) f = Parked p"
| "andThen (Ret x) f = f x"

text \<open>What \<^verbatim>\<open>conn.WriteTo(buf, addr)\<close> answers with its pair \<^verbatim>\<open>(n, err)\<close>: no error and
  \<^verbatim>\<open>n == len(buf)\<close>, no error and another \<^verbatim>\<open>n\<close>, or an error.\<close>

datatype wrote = Complete | Short | Failed error

text \<open>A transport that accepts every datagram whole.\<close>

definition delivers :: "Buffer \<Rightarrow> wrote" where
  "delivers b = Complete"

subsection \<open>Imported and package-level names\<close>

text \<open>Modelled from the spec: \<^verbatim>\<open>seq.GT\<close> belongs to the imported package
  \<^verbatim>\<open>github.com/lithdew/seq\<close>, whose source is not at hand. The spec: \<open>GT(a, b)\<close> is true iff
  \<open>(a - b) mod 2^16\<close> lies in \<open>(0, 2^15)\<close>.\<close>

definition GT :: "u16 \<Rightarrow> u16 \<Rightarrow> bool" where
  "GT a b = (0 < a - b \<and> a - b < 32768)"

text \<open>Modelled from the spec: the constant \<^verbatim>\<open>ACKBitsetSize\<close> is declared outside
  \<^verbatim>\<open>conn.go\<close>; the spec's ack bitfield reports 32 sequences.\<close>

definition ACKBitsetSize :: u16 where
  "ACKBitsetSize = 32"

text \<open>Modelled from the spec: \<^verbatim>\<open>emptyBufferIndices\<close> is declared outside \<^verbatim>\<open>conn.go\<close>; the
  spec's sentinel for an empty slot is \<open>0xFFFFFFFF\<close>. It overwrites every entry of the slice
  it is given.\<close>

definition emptyBufferIndices :: "u32 list \<Rightarrow> u32 list" where
  "emptyBufferIndices xs = map (\<lambda>_. 0xFFFFFFFF) xs"

text \<open>\<^verbatim>\<open>uint16(len(xs))\<close>, and \<^verbatim>\<open>s % uint16(len(xs))\<close> where that is not zero (Go panics
  where it is; every use below tests it first). The slot is below \<open>length xs\<close> then, so
  \<^verbatim>\<open>xs[s % uint16(len(xs))]\<close> never leaves the slice.\<close>

definition ring :: "'a list \<Rightarrow> u16" where
  "ring xs = of_nat (length xs)"

definition slot :: "u16 \<Rightarrow> 'a list \<Rightarrow> nat" where
  "slot s xs = unat (s mod ring xs)"

subsection \<open>NewConn\<close>

text \<open>The options and the four defaults are declared outside \<^verbatim>\<open>conn.go\<close>; \<open>NewConn\<close> takes
  the two default sizes and the sizes and handler the options have set (0 and \<open>False\<close> when
  none was given). The two durations are used by the retransmit loop only.\<close>

definition NewConn :: "u16 \<Rightarrow> u16 \<Rightarrow> u16 \<Rightarrow> u16 \<Rightarrow> bool \<Rightarrow> Conn" where
  "NewConn DefaultWriteBufferSize DefaultReadBufferSize writeBufferSize readBufferSize handler =
     (let w = (if writeBufferSize = 0 then DefaultWriteBufferSize else writeBufferSize);
          r = (if readBufferSize = 0 then DefaultReadBufferSize else readBufferSize)
      in \<lparr>die = False, exit = False, lui = 0, oui = 0, ls = 0, wi = 0, ri = 0,
          wq = emptyBufferIndices (replicate (unat w) 0),
          rq = emptyBufferIndices (replicate (unat r) 0),
          wqe = replicate (unat w) zeroPacket,
          pool = [], conn = [],
          ph = (if handler then Some [] else None)\<rparr>)"

subsection \<open>The writer gate and the next write\<close>

text \<open>The loop \<^verbatim>\<open>for !c.die && seq.GT(...) { c.ouc.Wait() }\<close>: while the test holds the caller
  waits and goes on, once woken, with the state it finds then; without a wake left it stays
  parked on the state it tested last. It returns the state on which the test failed and the
  wakes it has not used. \<open>shut\<close> names the test: the gate is shut on \<open>c\<close>.\<close>

definition shut :: "Conn \<Rightarrow> bool" where
  "shut c \<longleftrightarrow> \<not> die c \<and> GT (wi c + 1) (oui c + ring (rq c))"

fun waitUntilReaderAvailable :: "Conn \<Rightarrow> Conn list \<Rightarrow> (Conn \<times> Conn list) go" where
  "waitUntilReaderAvailable c [] =
     (if \<not> die c \<and> GT (wi c + 1) (oui c + ring (rq c)) then Parked c else Ret (c, []))"
| "waitUntilReaderAvailable c (w # wakes) =
     (if \<not> die c \<and> GT (wi c + 1) (oui c + ring (rq c)) then waitUntilReaderAvailable w wakes
      else Ret (c, w # wakes))"

definition nextWriteIndex :: "Conn \<Rightarrow> u16 \<times> Conn" where
  "nextWriteIndex c = (wi c, c\<lparr>wi := wi c + 1\<rparr>)"

function prepareAckBits_loop :: "u32 list \<Rightarrow> u16 \<Rightarrow> u16 \<Rightarrow> u32 \<Rightarrow> u32 \<Rightarrow> u32 go" where
  "prepareAckBits_loop q ack i m ackBits =
     (if i < ACKBitsetSize then
        (if ring q = 0 then Panic
         else if q ! slot (ack - i) q \<noteq> ucast (ack - i)
           then prepareAckBits_loop q ack (i + 1) (push_bit 1 m) ackBits
           else prepareAckBits_loop q ack (i + 1) (push_bit 1 m) (ackBits OR m))
      else Ret ackBits)"
  by pat_completeness auto
termination
  by (relation "measure (\<lambda>(q, ack, i, m, ackBits). 32 - unat i)")
    (auto simp: ACKBitsetSize_def unat_word_ariths word_less_nat_alt)

declare prepareAckBits_loop.simps [simp del]

definition prepareAckBits :: "Conn \<Rightarrow> u16 \<Rightarrow> u32 go" where
  "prepareAckBits c ack = prepareAckBits_loop (rq c) ack 0 1 0"

definition nextAckDetails :: "Conn \<Rightarrow> (u16 \<times> u32) go" where
  "nextAckDetails c =
     (let ack = ri c - 1 in andThen (prepareAckBits c ack) (\<lambda>ackBits. Ret (ack, ackBits)))"

text \<open>Returns the state it leaves and \<^verbatim>\<open>(idx, ack, ackBits, ok)\<close>.\<close>

definition waitForNextWriteDetails ::
  "Conn \<Rightarrow> Conn list \<Rightarrow> (Conn \<times> u16 \<times> u16 \<times> u32 \<times> bool) go" where
  "waitForNextWriteDetails c wakes =
     andThen (waitUntilReaderAvailable c wakes) (\<lambda>(c0, rest).
       let (idx, c1) = nextWriteIndex c0; ok = \<not> die c1 in
       andThen (nextAckDetails c1) (\<lambda>(ack, ackBits). Ret (c1, idx, ack, ackBits, ok)))"

subsection \<open>Walking a ring\<close>

text \<open>
  The two cursor loops below (\<^verbatim>\<open>trackAcked\<close>, \<^verbatim>\<open>trackUnacked\<close>) and the ack loop walk a ring
  for as long as slot \<open>s mod W\<close> records \<open>s\<close>. A ring of \<open>W \<noteq> 0\<close> slots cannot record every
  16-bit sequence: \<open>0\<close> and \<open>W\<close> share slot 0. So from any sequence \<open>s\<close> a walk reaches a
  slot that does not record its sequence; \<open>gap q s\<close> is the number of steps to the first.
\<close>

definition gap :: "u32 list \<Rightarrow> u16 \<Rightarrow> nat" where
  "gap q s = (LEAST k. q ! slot (s + of_nat k) q \<noteq> ucast (s + of_nat k))"

lemma ucast_u16_u32_inj: "(ucast (a::u16) :: u32) = ucast b \<longleftrightarrow> a = b"
proof
  assume "(ucast a :: u32) = ucast b"
  then have "uint (ucast a :: u32) = uint (ucast b :: u32)" by simp
  then have "uint a = uint b" by (simp add: uint_up_ucast is_up)
  then show "a = b" by (simp add: word_uint_eq_iff)
qed simp

lemma ring_mismatch:
  fixes q :: "u32 list"
  assumes "ring q \<noteq> 0"
  shows "\<exists>k. q ! slot (s + of_nat k) q \<noteq> ucast (s + of_nat k)"
proof (rule ccontr)
  assume "\<not> ?thesis"
  then have all: "\<And>k. q ! slot (s + of_nat k) q = ucast (s + of_nat k)" by blast
  have every: "q ! slot t q = ucast t" for t :: u16
    using all [of "unat (t - s)"] by simp
  have "slot (ring q) q = slot 0 q" by (simp add: slot_def)
  with every [of "ring q"] every [of 0] have "(ucast (ring q) :: u32) = ucast (0::u16)"
    by simp
  then have "ring q = 0" by (simp only: ucast_u16_u32_inj)
  with assms show False by simp
qed

lemma gap_step:
  fixes q :: "u32 list"
  assumes "ring q \<noteq> 0" and "q ! slot s q = ucast s"
  shows "gap q (s + 1) < gap q s"
proof -
  let ?P = "\<lambda>k. q ! slot (s + of_nat k) q \<noteq> ucast (s + of_nat k)"
  obtain n where n: "?P n" using ring_mismatch [OF assms(1)] by blast
  have z: "\<not> ?P 0" using assms(2) by simp
  have "(LEAST k. ?P k) = Suc (LEAST m. ?P (Suc m))"
    using n z by (rule Least_Suc)
  moreover have "s + of_nat (Suc m) = s + 1 + of_nat m" for m
    by simp
  ultimately show ?thesis by (simp only: gap_def)
qed

subsection \<open>Cursor maintenance\<close>

function trackAcked_loop :: "u32 list \<Rightarrow> u16 \<Rightarrow> u16 \<Rightarrow> u16 go" where
  "trackAcked_loop q ack l =
     (if l \<le> ack then
        (if ring q = 0 then Panic
         else if q ! slot l q \<noteq> ucast l then Ret l
         else trackAcked_loop q ack (l + 1))
      else Ret l)"
  by pat_completeness auto
termination
  by (relation "measure (\<lambda>(q, ack, l). gap q l)") (auto intro: gap_step)

declare trackAcked_loop.simps [simp del]

definition trackAcked :: "time \<Rightarrow> u16 \<Rightarrow> Conn \<Rightarrow> Conn go" where
  "trackAcked now ack c =
     andThen (trackAcked_loop (rq c) ack (lui c)) (\<lambda>l. Ret (c\<lparr>lui := l, ls := now\<rparr>))"

function trackUnacked_loop :: "u32 list \<Rightarrow> writtenPacket list \<Rightarrow> u16 \<Rightarrow> u16 go" where
  "trackUnacked_loop q es u =
     (if ring q = 0 then Panic
      else let i = slot u q in
        if q ! i \<noteq> ucast u then Ret u
        else if length es \<le> i then Panic
        else if \<not> acked (es ! i) then Ret u
        else trackUnacked_loop q es (u + 1))"
  by pat_completeness auto
termination
  by (relation "measure (\<lambda>(q, es, u). gap q u)") (auto intro: gap_step)

declare trackUnacked_loop.simps [simp del]

definition trackUnacked :: "Conn \<Rightarrow> Conn go" where
  "trackUnacked c =
     andThen (trackUnacked_loop (wq c) (wqe c) (oui c)) (\<lambda>u. Ret (c\<lparr>oui := u\<rparr>))"

subsection \<open>Clearing a range of a ring\<close>

text \<open>
  \<^verbatim>\<open>clearWrites\<close> and \<^verbatim>\<open>clearReads\<close> are the same code on \<^verbatim>\<open>c.wq\<close> and \<^verbatim>\<open>c.rq\<close>; \<open>clearRing\<close>
  is their common body. \<^verbatim>\<open>first\<close> and \<^verbatim>\<open>second\<close> are slices of the ring itself, so emptying
  them empties the ring's entries from \<open>start mod size\<close> on, and its first
  \<open>count - length\<close> entries. When \<open>size\<close> is 0 the first test returns, before the modulus.
\<close>

definition emptyRange :: "nat \<Rightarrow> nat \<Rightarrow> u32 list \<Rightarrow> u32 list" where
  "emptyRange from n q = take from q @ emptyBufferIndices (take n (drop from q)) @ drop (from + n) q"

definition clearRing :: "u16 \<Rightarrow> u16 \<Rightarrow> u32 list \<Rightarrow> u32 list" where
  "clearRing start endi q =
     (let count = endi - start + 1; size = ring q in
      if count \<ge> size then emptyBufferIndices q
      else let from = slot start q; length = (of_nat (List.length q - from) :: u16) in
        if count \<le> length then emptyRange from (unat count) q
        else emptyRange 0 (unat (count - length)) (emptyRange from (List.length q - from) q))"

definition clearWrites :: "u16 \<Rightarrow> u16 \<Rightarrow> Conn \<Rightarrow> Conn" where
  "clearWrites start endi c = c\<lparr>wq := clearRing start endi (wq c)\<rparr>"

definition clearReads :: "u16 \<Rightarrow> u16 \<Rightarrow> Conn \<Rightarrow> Conn" where
  "clearReads start endi c = c\<lparr>rq := clearRing start endi (rq c)\<rparr>"

subsection \<open>The send path\<close>

definition trackWrite :: "time \<Rightarrow> u16 \<Rightarrow> Buffer \<Rightarrow> Conn \<Rightarrow> Conn go" where
  "trackWrite now idx b c =
     (let c1 = (if GT (idx + 1) (wi c) then (clearWrites (wi c) idx c)\<lparr>wi := idx + 1\<rparr> else c) in
      if ring (wq c1) = 0 then Panic
      else let i = slot idx (wq c1) in
        if length (wqe c1) \<le> i then Panic
        else Ret (c1\<lparr>wq := (wq c1)[i := ucast idx],
                     pool := pool c1 @ (case buf (wqe c1 ! i) of None \<Rightarrow> [] | Some old \<Rightarrow> [old]),
                     wqe := (wqe c1)[i := \<lparr>buf = Some b, acked = False, written = now,
                                           resent = 0\<rparr>]\<rparr>))"

definition transmit :: "(Buffer \<Rightarrow> wrote) \<Rightarrow> Buffer \<Rightarrow> Conn \<Rightarrow> Conn \<times> error option" where
  "transmit WriteTo b c =
     (c\<lparr>conn := conn c @ [b]\<rparr>,
      case WriteTo b of Complete \<Rightarrow> None | Short \<Rightarrow> Some ErrShortWrite | Failed e \<Rightarrow> Some e)"

text \<open>The method \<^verbatim>\<open>write\<close>. An unordered buffer goes back to the pool when the method
  returns (the deferred \<^verbatim>\<open>pool.Put\<close>), after the transmission.\<close>

definition write_packet ::
  "(Buffer \<Rightarrow> wrote) \<Rightarrow> time \<Rightarrow> PacketHeader \<Rightarrow> byte list \<Rightarrow> Conn \<Rightarrow> (Conn \<times> error option) go" where
  "write_packet WriteTo now header bytes c =
     (let b = Buffer header bytes in
      andThen (if \<not> Unordered header then trackWrite now (Sequence header) b c else Ret c) (\<lambda>c1.
        let (c2, err) = transmit WriteTo b c1;
            c3 = (if Unordered header then c2\<lparr>pool := pool c2 @ [b]\<rparr> else c2) in
        case err of
          None \<Rightarrow> Ret (c3, None)
        | Some e \<Rightarrow>
            if \<not> isEOF e then Ret (c3, Some (Errorf ''failed to transmit packet'' e))
            else Ret (c3, None)))"

definition writePacket ::
  "(Buffer \<Rightarrow> wrote) \<Rightarrow> time \<Rightarrow> bool \<Rightarrow> byte list \<Rightarrow> Conn \<Rightarrow> Conn list \<Rightarrow>
     (Conn \<times> error option) go" where
  "writePacket WriteTo now reliable bytes c wakes =
     andThen
       (if reliable then waitForNextWriteDetails c wakes
        else andThen (nextAckDetails c) (\<lambda>(ack, ackBits). Ret (c, 0, ack, ackBits, True)))
       (\<lambda>(c1, idx, ack, ackBits, ok).
          if \<not> ok then Ret (c1, Some EOF)
          else andThen (trackAcked now ack c1) (\<lambda>c2.
            write_packet WriteTo now
              \<lparr>Sequence = idx, ACK = ack, ACKBits = ackBits, Unordered = \<not> reliable,
               Empty = False\<rparr> bytes c2))"

definition WriteReliablePacket ::
  "(Buffer \<Rightarrow> wrote) \<Rightarrow> time \<Rightarrow> byte list \<Rightarrow> Conn \<Rightarrow> Conn list \<Rightarrow> (Conn \<times> error option) go" where
  "WriteReliablePacket WriteTo now bytes c wakes = writePacket WriteTo now True bytes c wakes"

text \<open>The unreliable branch of \<^verbatim>\<open>writePacket\<close> never waits, so there is no wake for it to
  find.\<close>

definition WriteUnreliablePacket ::
  "(Buffer \<Rightarrow> wrote) \<Rightarrow> time \<Rightarrow> byte list \<Rightarrow> Conn \<Rightarrow> (Conn \<times> error option) go" where
  "WriteUnreliablePacket WriteTo now bytes c = writePacket WriteTo now False bytes c []"

subsection \<open>The receive path\<close>

function readAckBits_loop :: "u16 \<Rightarrow> u16 \<Rightarrow> u32 \<Rightarrow> Conn \<Rightarrow> Conn go" where
  "readAckBits_loop ack idx ackBits c =
     (if idx < ACKBitsetSize then
        (if ackBits AND 1 = 0 then readAckBits_loop ack (idx + 1) (drop_bit 1 ackBits) c
         else if ring (wq c) = 0 then Panic
         else let i = slot (ack - idx) (wq c) in
           if wq c ! i \<noteq> ucast (ack - idx)
             then readAckBits_loop ack (idx + 1) (drop_bit 1 ackBits) c
           else if length (wqe c) \<le> i then Panic
           else if acked (wqe c ! i)
             then readAckBits_loop ack (idx + 1) (drop_bit 1 ackBits) c
           else readAckBits_loop ack (idx + 1) (drop_bit 1 ackBits)
                  (c\<lparr>pool := pool c @ (case buf (wqe c ! i) of None \<Rightarrow> [] | Some b \<Rightarrow> [b]),
                     wqe := (wqe c)[i := (wqe c ! i)\<lparr>buf := None, acked := True\<rparr>]\<rparr>))
      else Ret c)"
  by pat_completeness auto
termination
  by (relation "measure (\<lambda>(ack, idx, ackBits, c). 32 - unat idx)")
    (auto simp: ACKBitsetSize_def unat_word_ariths word_less_nat_alt)

declare readAckBits_loop.simps [simp del]

definition readAckBits :: "u16 \<Rightarrow> u32 \<Rightarrow> Conn \<Rightarrow> Conn go" where
  "readAckBits ack ackBits c = readAckBits_loop ack 0 ackBits c"

text \<open>Returns the state it leaves and whether the sequence is new (\<open>False\<close>: a duplicate).\<close>

definition trackRead :: "u16 \<Rightarrow> Conn \<Rightarrow> (Conn \<times> bool) go" where
  "trackRead idx c =
     (if ring (rq c) = 0 then Panic
      else let i = slot idx (rq c) in
        if rq c ! i = ucast idx then Ret (c, False)
        else
          let c1 = (if GT (idx + 1) (ri c) then (clearReads (ri c) idx c)\<lparr>ri := idx + 1\<rparr> else c)
          in Ret (c1\<lparr>rq := (rq c1)[i := ucast idx]\<rparr>, True))"

subsection \<open>Standalone acks\<close>

text \<open>The \<^verbatim>\<open>for\<close> loop of \<^verbatim>\<open>createAckIfNecessary\<close>: \<open>Ret True\<close> when the 32 slots from \<open>l\<close> on
  each record their sequence, \<open>Ret False\<close> at the first that does not.\<close>

function createAckIfNecessary_loop :: "u32 list \<Rightarrow> u16 \<Rightarrow> u16 \<Rightarrow> bool go" where
  "createAckIfNecessary_loop q l i =
     (if i < ACKBitsetSize then
        (if ring q = 0 then Panic
         else if q ! slot (l + i) q \<noteq> ucast (l + i) then Ret False
         else createAckIfNecessary_loop q l (i + 1))
      else Ret True)"
  by pat_completeness auto
termination
  by (relation "measure (\<lambda>(q, l, i). 32 - unat i)")
    (auto simp: ACKBitsetSize_def unat_word_ariths word_less_nat_alt)

declare createAckIfNecessary_loop.simps [simp del]

text \<open>Returns the state it leaves, the header, \<^verbatim>\<open>needed\<close> and the wakes it has not used. It
  has written \<^verbatim>\<open>c.lui\<close> and \<^verbatim>\<open>c.ls\<close> when it comes to the gate; the local \<^verbatim>\<open>lui\<close> (here \<open>l\<close>)
  gives the header its \<^verbatim>\<open>ACK\<close> whatever the connection holds after a wait.\<close>

definition createAckIfNecessary ::
  "time \<Rightarrow> Conn \<Rightarrow> Conn list \<Rightarrow> (Conn \<times> PacketHeader \<times> bool \<times> Conn list) go" where
  "createAckIfNecessary now c wakes =
     andThen (createAckIfNecessary_loop (rq c) (lui c) 0) (\<lambda>full.
       if \<not> full then Ret (c, zeroHeader, False, wakes)
       else
         let l = lui c + ACKBitsetSize; c1 = c\<lparr>lui := l, ls := now\<rparr> in
         andThen (waitUntilReaderAvailable c1 wakes) (\<lambda>(c0, rest).
           let (idx, c2) = nextWriteIndex c0 in
           andThen (prepareAckBits c2 (l - 1)) (\<lambda>ackBits.
             Ret (c2,
                  \<lparr>Sequence = idx, ACK = l - 1, ACKBits = ackBits, Unordered = False,
                   Empty = True\<rparr>,
                  \<not> die c2, rest))))"

text \<open>
  The loop of \<^verbatim>\<open>writeAcksIfNecessary\<close> goes round again only after \<^verbatim>\<open>createAckIfNecessary\<close> has
  found 32 recorded slots from \<open>lui\<close> on and moved \<open>lui\<close> past them. Either it has waited
  then, and a wake is used up; or it has not, and as neither it nor \<^verbatim>\<open>write\<close> touches
  \<^verbatim>\<open>rq\<close>, the walk of \<open>lui\<close> along the ring comes 32 steps closer to the first slot that does
  not record its sequence. The wakes left and then that distance are the loop's measure.
\<close>

lemma gap_steps:
  fixes q :: "u32 list"
  assumes "ring q \<noteq> 0"
  shows "(\<forall>k<n. q ! slot (s + of_nat k) q = ucast (s + of_nat k)) \<Longrightarrow> 0 < n \<Longrightarrow>
    gap q (s + of_nat n) < gap q s"
proof (induction n arbitrary: s)
  case 0
  then show ?case by simp
next
  case (Suc n)
  have here: "q ! slot s q = ucast s" using Suc.prems(1) [rule_format, of 0] by simp
  have first: "gap q (s + 1) < gap q s" using assms here by (rule gap_step)
  show ?case
  proof (cases "n = 0")
    case True
    with first show ?thesis by simp
  next
    case False
    have "\<forall>k<n. q ! slot (s + 1 + of_nat k) q = ucast (s + 1 + of_nat k)"
    proof (intro allI impI)
      fix k assume "k < n"
      then have "Suc k < Suc n" by simp
      from Suc.prems(1) [rule_format, OF this]
      show "q ! slot (s + 1 + of_nat k) q = ucast (s + 1 + of_nat k)"
        by (simp add: add.assoc)
    qed
    with False have "gap q (s + 1 + of_nat n) < gap q (s + 1)" using Suc.IH by simp
    with first show ?thesis by (simp add: add.assoc)
  qed
qed

lemma createAckIfNecessary_loop_True:
  "createAckIfNecessary_loop q l i = Ret True \<Longrightarrow> unat i \<le> k \<Longrightarrow> k < 32 \<Longrightarrow>
     ring q \<noteq> 0 \<and> q ! slot (l + of_nat k) q = ucast (l + of_nat k)"
proof (induction q l i rule: createAckIfNecessary_loop.induct)
  case (1 q l i)
  from "1.prems" have lt: "i < 32" by (simp add: word_less_nat_alt)
  from "1.prems"(1) lt have nz: "ring q \<noteq> 0"
    by (subst (asm) createAckIfNecessary_loop.simps) (auto simp: ACKBitsetSize_def split: if_splits)
  from "1.prems"(1) lt nz have here: "q ! slot (l + i) q = ucast (l + i)"
    and rest: "createAckIfNecessary_loop q l (i + 1) = Ret True"
    by (subst (asm) createAckIfNecessary_loop.simps; auto simp: ACKBitsetSize_def split: if_splits)+
  show ?case
  proof (cases "k = unat i")
    case True
    with here nz show ?thesis by simp
  next
    case False
    from lt have "unat (i + 1) = unat i + 1" by (simp add: unat_word_ariths word_less_nat_alt)
    with False "1.prems" have "unat (i + 1) \<le> k" by simp
    with "1.IH" lt nz here rest "1.prems"(3) show ?thesis by (simp add: ACKBitsetSize_def)
  qed
qed

lemma andThen_Ret: "andThen m f = Ret y \<longleftrightarrow> (\<exists>x. m = Ret x \<and> f x = Ret y)"
  by (cases m) auto

lemma waitUntilReaderAvailable_uses:
  "waitUntilReaderAvailable c wakes = Ret (c0, rest) \<Longrightarrow>
     (c0 = c \<and> rest = wakes) \<or> length rest < length wakes"
proof (induction wakes arbitrary: c)
  case Nil
  then show ?case by (simp split: if_splits)
next
  case (Cons w wakes)
  show ?case
  proof (cases "\<not> die c \<and> GT (wi c + 1) (oui c + ring (rq c))")
    case True
    with Cons.prems have "waitUntilReaderAvailable w wakes = Ret (c0, rest)" by simp
    from Cons.IH [OF this] show ?thesis by auto
  next
    case False
    with Cons.prems show ?thesis by simp
  qed
qed

lemma createAckIfNecessary_needed:
  assumes "createAckIfNecessary now c wakes = Ret (c1, h, True, rest)"
  shows "createAckIfNecessary_loop (rq c) (lui c) 0 = Ret True \<and>
    ((rest = wakes \<and> rq c1 = rq c \<and> lui c1 = lui c + 32) \<or> length rest < length wakes)"
proof -
  from assms have full: "createAckIfNecessary_loop (rq c) (lui c) 0 = Ret True"
    by (auto simp: createAckIfNecessary_def andThen_Ret split: if_splits)
  with assms obtain c0 where
    w: "waitUntilReaderAvailable (c\<lparr>lui := lui c + 32, ls := now\<rparr>) wakes = Ret (c0, rest)"
    and c1: "c1 = c0\<lparr>wi := wi c0 + 1\<rparr>"
    by (auto simp: createAckIfNecessary_def andThen_Ret nextWriteIndex_def Let_def
        ACKBitsetSize_def)
  from waitUntilReaderAvailable_uses [OF w] c1 full show ?thesis by auto
qed

lemma trackWrite_rq_lui: "trackWrite now idx b c = Ret c' \<Longrightarrow> rq c' = rq c \<and> lui c' = lui c"
  by (auto simp: trackWrite_def Let_def clearWrites_def split: if_splits)

lemma write_packet_rq_lui:
  "write_packet WriteTo now h bs c = Ret (c', e) \<Longrightarrow> rq c' = rq c \<and> lui c' = lui c"
  by (auto simp: write_packet_def Let_def andThen_Ret transmit_def dest!: trackWrite_rq_lui
      split: if_splits option.splits)

lemma writeAcks_decreases:
  assumes "createAckIfNecessary now c wakes = Ret (c1, h, True, rest)"
    and "write_packet WriteTo now h [] c1 = Ret (c2, e)"
  shows "length rest < length wakes \<or>
    (length rest = length wakes \<and> gap (rq c2) (lui c2) < gap (rq c) (lui c))"
proof (cases "length rest < length wakes")
  case True
  then show ?thesis by simp
next
  case False
  with createAckIfNecessary_needed [OF assms(1)]
  have full: "createAckIfNecessary_loop (rq c) (lui c) 0 = Ret True"
    and same: "rest = wakes"
    and c1: "rq c1 = rq c" "lui c1 = lui c + 32" by auto
  from write_packet_rq_lui [OF assms(2)] c1 have c2: "rq c2 = rq c" "lui c2 = lui c + 32"
    by simp_all
  from createAckIfNecessary_loop_True [OF full, of 0] have nz: "ring (rq c) \<noteq> 0" by simp
  have "\<forall>k<32. rq c ! slot (lui c + of_nat k) (rq c) = ucast (lui c + of_nat k)"
    using createAckIfNecessary_loop_True [OF full] by simp
  from gap_steps [OF nz this] c2 same show ?thesis by simp
qed

function writeAcksIfNecessary ::
  "(Buffer \<Rightarrow> wrote) \<Rightarrow> time \<Rightarrow> Conn \<Rightarrow> Conn list \<Rightarrow> (Conn \<times> error option) go" where
  "writeAcksIfNecessary WriteTo now c wakes =
     (case createAckIfNecessary now c wakes of
        Panic \<Rightarrow> Panic
      | Parked p \<Rightarrow> Parked p
      | Ret (c1, header, needed, rest) \<Rightarrow>
          if \<not> needed then Ret (c1, None)
          else
            (case write_packet WriteTo now header [] c1 of
               Panic \<Rightarrow> Panic
             | Parked p \<Rightarrow> Parked p
             | Ret (c2, Some e) \<Rightarrow> Ret (c2, Some (Errorf ''failed to write ack packet'' e))
             | Ret (c2, None) \<Rightarrow> writeAcksIfNecessary WriteTo now c2 rest))"
  by pat_completeness auto
termination
proof (relation "inv_image (less_than <*lex*> less_than)
    (\<lambda>(WriteTo, now, c, wakes). (length wakes, gap (rq c) (lui c)))")
  show "wf (inv_image (less_than <*lex*> less_than)
    (\<lambda>(WriteTo :: Buffer \<Rightarrow> wrote, now :: time, c, wakes :: Conn list).
       (length wakes, gap (rq c) (lui c))))"
    by (intro wf_inv_image wf_lex_prod wf_less_than)
next
  fix WriteTo now c wakes x2 x1 x2a x1a x2b x1b x2c x3 x1c x2d
  assume "createAckIfNecessary now c wakes = Ret x2" "(x1, x2a) = x2" "(x1a, x2b) = x2a"
    "(x1b, x2c) = x2b" "\<not> \<not> x1b" "write_packet WriteTo now x1a [] x1 = Ret x3"
    "(x1c, x2d) = x3" "x2d = None"
  then have "createAckIfNecessary now c wakes = Ret (x1, x1a, True, x2c)"
    and "write_packet WriteTo now x1a [] x1 = Ret (x1c, None)" by auto
  from writeAcks_decreases [OF this]
  show "((WriteTo, now, x1c, x2c), WriteTo, now, c, wakes)
    \<in> inv_image (less_than <*lex*> less_than)
       (\<lambda>(WriteTo, now, c, wakes). (length wakes, gap (rq c) (lui c)))"
    by auto
qed

declare writeAcksIfNecessary.simps [simp del]

subsection \<open>Read\<close>

text \<open>\<^verbatim>\<open>trackRead\<close> runs for an ordered packet only; an unordered one goes on as a new one
  does.\<close>

definition Read ::
  "(Buffer \<Rightarrow> wrote) \<Rightarrow> time \<Rightarrow> PacketHeader \<Rightarrow> byte list \<Rightarrow> Conn \<Rightarrow> Conn list \<Rightarrow>
     (Conn \<times> error option) go" where
  "Read WriteTo now header bytes c wakes =
     andThen (readAckBits (ACK header) (ACKBits header) c) (\<lambda>c1.
       andThen (if \<not> Unordered header then trackRead (Sequence header) c1 else Ret (c1, True))
         (\<lambda>(c2, new).
            if \<not> new then Ret (c2, None)
            else
              andThen (trackUnacked c2) (\<lambda>c3.
                andThen (writeAcksIfNecessary WriteTo now c3 wakes) (\<lambda>(c4, err).
                  case err of
                    Some e \<Rightarrow> Ret (c4, Some (Errorf ''failed to write acks when necessary'' e))
                  | None \<Rightarrow>
                      if Empty header then Ret (c4, None)
                      else
                        (case ph c4 of
                           None \<Rightarrow> Ret (c4, None)
                         | Some calls \<Rightarrow>
                             Ret (c4\<lparr>ph := Some (calls @ [(Sequence header, bytes)])\<rparr>,
                                  None))))))"

subsection \<open>Close\<close>

text \<open>\<^verbatim>\<open>ouc.Broadcast()\<close> wakes the parked writers and changes no field.\<close>

definition close :: "Conn \<Rightarrow> Conn \<times> bool" where
  "close c = (if die c then (c, False) else (c\<lparr>exit := True, die := True\<rparr>, True))"

definition Close :: "Conn \<Rightarrow> Conn" where
  "Close c = (let (c1, first) = close c in if \<not> first then c1 else c1)"

subsection \<open>The shape NewConn gives\<close>

text \<open>\<^verbatim>\<open>NewConn\<close> allocates \<^verbatim>\<open>wq\<close> and \<^verbatim>\<open>wqe\<close> with \<^verbatim>\<open>writeBufferSize\<close> slots and \<^verbatim>\<open>rq\<close> with
  \<^verbatim>\<open>readBufferSize\<close> slots, neither zero when the defaults are not, and no method resizes a
  ring. On a connection of this shape no modulus is zero and no index leaves its slice.\<close>

definition sized :: "Conn \<Rightarrow> bool" where
  "sized c \<longleftrightarrow> ring (wq c) \<noteq> 0 \<and> ring (rq c) \<noteq> 0 \<and> length (wqe c) = length (wq c)"

subsection \<open>One round of the loop of readAckBits\<close>

text \<open>The three ways a round with \<open>idx < 32\<close> goes: it leaves the slot alone (\<open>skips\<close>: the
  bit is clear, the slot records another sequence, or the slot is acked already), it acks
  the slot (\<open>marks\<close>, then \<open>ackSlot\<close>), or it panics.\<close>

definition marks :: "u16 \<Rightarrow> u16 \<Rightarrow> u32 \<Rightarrow> Conn \<Rightarrow> bool" where
  "marks ack idx ackBits c \<longleftrightarrow>
     ackBits AND 1 \<noteq> 0 \<and> ring (wq c) \<noteq> 0 \<and>
     wq c ! slot (ack - idx) (wq c) = ucast (ack - idx) \<and>
     slot (ack - idx) (wq c) < length (wqe c) \<and>
     \<not> acked (wqe c ! slot (ack - idx) (wq c))"

definition skips :: "u16 \<Rightarrow> u16 \<Rightarrow> u32 \<Rightarrow> Conn \<Rightarrow> bool" where
  "skips ack idx ackBits c \<longleftrightarrow>
     ackBits AND 1 = 0 \<or>
     (ring (wq c) \<noteq> 0 \<and>
       (wq c ! slot (ack - idx) (wq c) \<noteq> ucast (ack - idx) \<or>
        (slot (ack - idx) (wq c) < length (wqe c) \<and> acked (wqe c ! slot (ack - idx) (wq c)))))"

definition ackSlot :: "nat \<Rightarrow> Conn \<Rightarrow> Conn" where
  "ackSlot i c =
     c\<lparr>pool := pool c @ (case buf (wqe c ! i) of None \<Rightarrow> [] | Some b \<Rightarrow> [b]),
       wqe := (wqe c)[i := (wqe c ! i)\<lparr>buf := None, acked := True\<rparr>]\<rparr>"

subsection \<open>A full window\<close>

text \<open>\<open>windowFull\<close>: the 32 receive slots from \<open>lui\<close> on each record their sequence, which
  is what the loop of \<^verbatim>\<open>createAckIfNecessary\<close> tests. \<open>ackHeader\<close>: the header of the
  standalone ack written then, with the sequence, the \<^verbatim>\<open>ACK\<close> and the ack bits it is given.
  \<open>kept b c\<close>: \<open>c\<close> has the receive ring, \<open>ri\<close>, the handler's calls and \<open>die\<close> of \<open>b\<close>.\<close>

definition windowFull :: "Conn \<Rightarrow> bool" where
  "windowFull c \<longleftrightarrow> (\<forall>k<32. rq c ! slot (lui c + of_nat k) (rq c) = ucast (lui c + of_nat k))"

definition ackHeader :: "u16 \<Rightarrow> u16 \<Rightarrow> u32 \<Rightarrow> PacketHeader" where
  "ackHeader idx ack ackBits =
     \<lparr>Sequence = idx, ACK = ack, ACKBits = ackBits, Unordered = False, Empty = True\<rparr>"

definition kept :: "Conn \<Rightarrow> Conn \<Rightarrow> bool" where
  "kept b c \<longleftrightarrow> rq c = rq b \<and> ri c = ri b \<and> ph c = ph b \<and> die c = die b"

subsection \<open>Histories\<close>

text \<open>A history is a list of calls made one after the other, none of them woken by
  another goroutine, on a transport that accepts every datagram; \<open>replay\<close> runs it. \<open>quiet\<close>
  empties the three logs of the state reached.\<close>

datatype call =
  Reliable time "byte list"
| Unreliable time "byte list"
| Receive time PacketHeader "byte list"
| Closing

fun run :: "call \<Rightarrow> Conn \<Rightarrow> Conn go" where
  "run (Reliable now bs) c =
     andThen (WriteReliablePacket delivers now bs c []) (\<lambda>(c', _). Ret c')"
| "run (Unreliable now bs) c =
     andThen (WriteUnreliablePacket delivers now bs c) (\<lambda>(c', _). Ret c')"
| "run (Receive now h bs) c = andThen (Read delivers now h bs c []) (\<lambda>(c', _). Ret c')"
| "run Closing c = Ret (Close c)"

fun replay :: "call list \<Rightarrow> Conn \<Rightarrow> Conn go" where
  "replay [] c = Ret c"
| "replay (x # xs) c = andThen (run x c) (replay xs)"

definition quiet :: "Conn go \<Rightarrow> Conn go" where
  "quiet r =
     andThen r (\<lambda>c. Ret (c\<lparr>pool := [], conn := [], ph := map_option (\<lambda>_. []) (ph c)\<rparr>))"

section \<open>Connections to run the theorems on\<close>

text \<open>In these states the three logs (\<open>pool\<close>, \<open>conn\<close>, the calls of \<open>ph\<close>) are empty: they
  record what the collaborators see from the state on.

  \<open>fresh\<close> is what \<^verbatim>\<open>NewConn\<close> builds with both rings set to 32 slots and a packet handler.
  \<open>received3\<close> has received the sequences 0, 1 and 2 and has sent nothing.\<close>

definition fresh :: Conn where
  "fresh = NewConn 256 256 32 32 True"

definition received3 :: Conn where
  "received3 = fresh\<lparr>ri := 3, rq := [0, 1, 2] @ replicate 29 0xFFFFFFFF\<rparr>"

text \<open>\<open>sent3\<close> has written the reliable packets 0, 1 and 2 at the times 1, 2 and 3; the
  peer has acked packet 1.\<close>

definition sent3 :: Conn where
  "sent3 = fresh\<lparr>ls := 3, wi := 3, wq := [0, 1, 2] @ replicate 29 0xFFFFFFFF,
     wqe := [\<lparr>buf = Some (Buffer (zeroHeader\<lparr>Sequence := 0, ACK := 65535\<rparr>) [10]),
               acked = False, written = 1, resent = 0\<rparr>,
             \<lparr>buf = None, acked = True, written = 2, resent = 0\<rparr>,
             \<lparr>buf = Some (Buffer (zeroHeader\<lparr>Sequence := 2, ACK := 65535\<rparr>) [12]),
               acked = False, written = 3, resent = 0\<rparr>] @ replicate 29 zeroPacket\<rparr>"

text \<open>\<open>full32\<close> has written the reliable packets 0 to 31 and has had no ack: its window is
  full. \<open>wrapped\<close> has received every sequence up to 65535 and then 0 and 1, across the wrap
  of the sequence space; it has answered with unreliable packets only, the last of them
  before 65535 came in, so \<open>lui\<close> is 65535.\<close>

definition full32 :: Conn where
  "full32 = fresh\<lparr>ls := 1, wi := 32, wq := map of_nat [0..<32],
     wqe := map (\<lambda>s. \<lparr>buf = Some (Buffer (zeroHeader\<lparr>Sequence := of_nat s, ACK := 65535\<rparr>) []),
                       acked = False, written = 1, resent = 0\<rparr>) [0..<32]\<rparr>"

definition wrapped :: Conn where
  "wrapped = fresh\<lparr>lui := 65535, ls := 1, ri := 2,
     rq := [0, 1] @ map (\<lambda>s. 65504 + of_nat s) [2..<32]\<rparr>"

text \<open>\<open>window31\<close> has received the sequences 0 to 30, \<open>window32\<close> the sequences 0 to 31;
  neither has written anything. \<open>hole1\<close> has received 0 and 2: sequence 1 is late.
  \<open>stale1\<close> is the header of that late packet.\<close>

definition window31 :: Conn where
  "window31 = fresh\<lparr>ri := 31, rq := map of_nat [0..<31] @ [0xFFFFFFFF]\<rparr>"

definition window32 :: Conn where
  "window32 = fresh\<lparr>ri := 32, rq := map of_nat [0..<32]\<rparr>"

definition hole1 :: Conn where
  "hole1 = fresh\<lparr>ri := 3, rq := [0, 0xFFFFFFFF, 2] @ replicate 29 0xFFFFFFFF\<rparr>"

definition stale1 :: PacketHeader where
  "stale1 = zeroHeader\<lparr>Sequence := 1, ACK := 65535\<rparr>"

text \<open>\<open>peerAck0\<close> is an unordered packet of the peer that acks packet 0. \<open>relieved\<close> is
  \<open>full32\<close> after \<^verbatim>\<open>Read\<close> of it: packet 0 is acked, its buffer is back in the pool, \<open>oui\<close> is
  1 and the gate is open.\<close>

definition peerAck0 :: PacketHeader where
  "peerAck0 = \<lparr>Sequence = 0, ACK = 0, ACKBits = 1, Unordered = True, Empty = False\<rparr>"

definition relieved :: Conn where
  "relieved = full32\<lparr>oui := 1,
     wqe := (wqe full32)[0 := \<lparr>buf = None, acked = True, written = 1, resent = 0\<rparr>],
     pool := [Buffer (zeroHeader\<lparr>Sequence := 0, ACK := 65535\<rparr>) []],
     ph := Some [(0, [])]\<rparr>"

text \<open>\<open>busy\<close> has written the reliable packets 0 to 31, unacked, and has then received the
  sequences 0 and 2 to 31: sequence 1 is late and the gate is shut. \<^verbatim>\<open>Read\<close> of the late
  packet \<open>stale1\<close> at time 9 records sequence 1, which makes \<open>due\<close>, the state it calls
  \<^verbatim>\<open>writeAcksIfNecessary\<close> on, and then waits at the gate on \<open>blocked\<close>, where \<open>lui\<close> is 32
  already. \<open>woken\<close> is \<open>blocked\<close> after another goroutine's \<^verbatim>\<open>Read\<close> of \<open>peerAck0\<close>.\<close>

definition busy :: Conn where
  "busy = full32\<lparr>ri := 32, rq := [0, 0xFFFFFFFF] @ map of_nat [2..<32]\<rparr>"

definition due :: Conn where
  "due = busy\<lparr>rq := map of_nat [0..<32]\<rparr>"

definition blocked :: Conn where
  "blocked = due\<lparr>lui := 32, ls := 9\<rparr>"

definition woken :: Conn where
  "woken = blocked\<lparr>oui := 1,
     wqe := (wqe blocked)[0 := \<lparr>buf = None, acked = True, written = 1, resent = 0\<rparr>],
     pool := [Buffer (zeroHeader\<lparr>Sequence := 0, ACK := 65535\<rparr>) []],
     ph := Some [(0, [])]\<rparr>"

subsection \<open>How the connections come about\<close>

text \<open>Each of them but \<open>wrapped\<close>, which has 65538 packets behind it, is what a short history
  leaves of \<open>fresh\<close>: three packets received; three packets written and an unordered packet
  of the peer read that acks the second; 32 packets written; 31 packets received; packets
  0 and 2 received. \<open>busy\<close> is what 31 more packets received leave of \<open>full32\<close>; \<open>relieved\<close>,
  \<open>due\<close>, \<open>blocked\<close> and \<open>woken\<close> are met inside or after one more \<^verbatim>\<open>Read\<close>.\<close>

lemma received3_reached:
  "quiet (replay (map (\<lambda>s. Receive 1 (zeroHeader\<lparr>Sequence := of_nat s, ACK := 65535\<rparr>) [])
                   [0..<3]) fresh) = Ret received3"
  by code_simp

lemma sent3_reached:
  "quiet (replay [Reliable 1 [10], Reliable 2 [11], Reliable 3 [12],
                  Receive 4 \<lparr>Sequence = 0, ACK = 1, ACKBits = 1, Unordered = True,
                             Empty = False\<rparr> []] fresh) = Ret sent3"
  by code_simp

lemma full32_reached:
  "quiet (replay (map (\<lambda>_. Reliable 1 []) [0..<32]) fresh) = Ret full32"
  by code_simp

lemma window31_reached:
  "quiet (replay (map (\<lambda>s. Receive 1 (zeroHeader\<lparr>Sequence := of_nat s, ACK := 65535\<rparr>) [])
                   [0..<31]) fresh) = Ret window31"
  by code_simp

lemma hole1_reached:
  "quiet (replay [Receive 1 (zeroHeader\<lparr>Sequence := 0, ACK := 65535\<rparr>) [],
                  Receive 1 (zeroHeader\<lparr>Sequence := 2, ACK := 65535\<rparr>) []] fresh) = Ret hole1"
  by code_simp

lemma relieved_reached: "Read delivers 2 peerAck0 [] full32 [] = Ret (relieved, None)"
  by code_simp

lemma busy_reached:
  "quiet (replay (map (\<lambda>s. Receive 1 (zeroHeader\<lparr>Sequence := of_nat s, ACK := 65535\<rparr>) [])
                   (0 # [2..<32])) full32) = Ret busy"
  by code_simp

lemma due_reached:
  "readAckBits (ACK stale1) (ACKBits stale1) busy = Ret busy \<and>
   trackRead (Sequence stale1) busy = Ret (due, True) \<and> trackUnacked due = Ret due"
  by code_simp

lemma blocked_reached: "writeAcksIfNecessary delivers 9 due [] = Parked blocked"
  by code_simp

lemma woken_reached: "Read delivers 10 peerAck0 [] blocked [] = Ret (woken, None)"
  by code_simp

section \<open>Shape and arithmetic\<close>

lemma slot_less: "ring q \<noteq> 0 \<Longrightarrow> slot s q < length q"
proof -
  assume nz: "ring q \<noteq> 0"
  then have "0 < unat (ring q)" by (simp add: unat_gt_0)
  then have "unat s mod unat (ring q) < unat (ring q)" by simp
  moreover have "unat (ring q) \<le> length q"
    by (simp add: ring_def unat_of_nat)
  ultimately show ?thesis by (simp add: slot_def unat_mod)
qed

lemma NewConn_sized:
  "dw \<noteq> 0 \<Longrightarrow> dr \<noteq> 0 \<Longrightarrow> sized (NewConn dw dr w r h)"
  by (simp add: NewConn_def sized_def Let_def ring_def emptyBufferIndices_def)

section \<open>The ack bitset\<close>

lemma u16_succ: "(i::u16) < 32 \<Longrightarrow> unat (i + 1) = Suc (unat i)"
  by (simp add: unat_word_ariths word_less_nat_alt)

lemma bit_one_shifted: "bit (push_bit n (1::u32)) k \<longleftrightarrow> k = n \<and> n < 32"
  by (auto simp: bit_simps)

lemma prepareAckBits_loop_bits:
  "ring q \<noteq> 0 \<Longrightarrow> unat i \<le> 32 \<Longrightarrow> m = push_bit (unat i) 1 \<Longrightarrow>
    \<exists>bits. prepareAckBits_loop q ack i m acc = Ret bits \<and>
      (\<forall>k. bit bits k \<longleftrightarrow>
         bit acc k \<or>
         (unat i \<le> k \<and> k < 32 \<and> q ! slot (ack - of_nat k) q = ucast (ack - of_nat k)))"
proof (induction q ack i m acc rule: prepareAckBits_loop.induct)
  case (1 q ack i m ackBits)
  note nz = "1.prems"(1) and i32 = "1.prems"(2) and m = "1.prems"(3)
  show ?case
  proof (cases "i < 32")
    case False
    with i32 have "unat i = 32" by (simp add: word_less_nat_alt)
    with False show ?thesis
      by (subst prepareAckBits_loop.simps) (auto simp: ACKBitsetSize_def)
  next
    case True
    have suc: "unat (i + 1) = Suc (unat i)" using True by (rule u16_succ)
    have le: "unat (i + 1) \<le> 32" using True suc by (simp add: word_less_nat_alt)
    have m': "push_bit 1 m = push_bit (unat (i + 1)) (1::u32)"
      using m suc by (simp add: push_bit_Suc mult.commute push_bit_eq_mult)
    have mk: "bit m k \<longleftrightarrow> k = unat i" for k
    proof -
      have "bit m k \<longleftrightarrow> k = unat i \<and> unat i < 32"
        unfolding m by (rule bit_one_shifted)
      with True show ?thesis by (simp add: word_less_nat_alt)
    qed
    have here: "ack - of_nat (unat i) = ack - i" by simp
    have lt: "i < ACKBitsetSize" using True by (simp add: ACKBitsetSize_def)
    show ?thesis
    proof (cases "q ! slot (ack - i) q \<noteq> ucast (ack - i)")
      case miss: True
      from "1.IH"(1) [OF lt nz miss nz le m']
      obtain bits where b: "prepareAckBits_loop q ack (i + 1) (push_bit 1 m) ackBits = Ret bits"
        and bk: "\<And>k. bit bits k \<longleftrightarrow> bit ackBits k \<or>
          (unat (i + 1) \<le> k \<and> k < 32 \<and> q ! slot (ack - of_nat k) q = ucast (ack - of_nat k))"
        by blast
      have "prepareAckBits_loop q ack i m ackBits = Ret bits"
        using True miss nz b by (subst prepareAckBits_loop.simps) (simp add: ACKBitsetSize_def)
      moreover have "bit bits k \<longleftrightarrow> bit ackBits k \<or>
          (unat i \<le> k \<and> k < 32 \<and> q ! slot (ack - of_nat k) q = ucast (ack - of_nat k))" for k
      proof (cases "k = unat i")
        case True
        with miss here bk [of k] suc show ?thesis by simp
      next
        case False
        with bk [of k] suc show ?thesis by auto
      qed
      ultimately show ?thesis by blast
    next
      case hit: False
      from "1.IH"(2) [OF lt nz hit nz le m']
      obtain bits where
        b: "prepareAckBits_loop q ack (i + 1) (push_bit 1 m) (ackBits OR m) = Ret bits"
        and bk: "\<And>k. bit bits k \<longleftrightarrow> bit (ackBits OR m) k \<or>
          (unat (i + 1) \<le> k \<and> k < 32 \<and> q ! slot (ack - of_nat k) q = ucast (ack - of_nat k))"
        by blast
      have "prepareAckBits_loop q ack i m ackBits = Ret bits"
        using True hit nz b by (subst prepareAckBits_loop.simps) (simp add: ACKBitsetSize_def)
      moreover have "bit bits k \<longleftrightarrow> bit ackBits k \<or>
          (unat i \<le> k \<and> k < 32 \<and> q ! slot (ack - of_nat k) q = ucast (ack - of_nat k))" for k
      proof (cases "k = unat i")
        case keq: True
        with hit here bk [of k] suc mk [of k] True show ?thesis
          by (simp add: bit_or_iff word_less_nat_alt)
      next
        case False
        with bk [of k] suc mk [of k] show ?thesis by (auto simp: bit_or_iff)
      qed
      ultimately show ?thesis by blast
    qed
  qed
qed

text \<open>
  C5. For every receive window and every \<open>ack\<close>, \<^verbatim>\<open>prepareAckBits(ack)\<close> returns the 32-bit value
  whose bit \<open>k\<close> (\<open>k < 32\<close>) is set if and only if receive slot \<open>(ack - k) mod W_r\<close> records
  \<open>ack - k\<close>; a sequence the window does not record has its bit clear. (\<open>W_r\<close> is not zero:
  \<^verbatim>\<open>NewConn\<close> never builds an empty ring, on which the modulus would panic.)
\<close>

theorem prepareAckBits_reports_window:
  assumes "ring (rq c) \<noteq> 0"
  shows "\<exists>bits. prepareAckBits c ack = Ret bits \<and>
    (\<forall>k<32. bit bits k \<longleftrightarrow> rq c ! slot (ack - of_nat k) (rq c) = ucast (ack - of_nat k))"
proof -
  from prepareAckBits_loop_bits [OF assms, of 0 1 ack 0]
  obtain bits where "prepareAckBits_loop (rq c) ack 0 1 0 = Ret bits"
    and "\<And>k. bit bits k \<longleftrightarrow>
      (k < 32 \<and> rq c ! slot (ack - of_nat k) (rq c) = ucast (ack - of_nat k))"
    by auto
  then show ?thesis by (auto simp: prepareAckBits_def)
qed

theorem prepareAckBits_reports_window_witness:
  "ring (rq received3) \<noteq> 0 \<and>
   prepareAckBits received3 2 = Ret 7 \<and>
   (\<exists>bits. prepareAckBits received3 2 = Ret bits \<and>
      (bit bits 1 \<longleftrightarrow>
         rq received3 ! slot (2 - of_nat 1) (rq received3) = ucast (2 - of_nat 1 :: u16)) \<and>
      (bit bits 3 \<longleftrightarrow>
         rq received3 ! slot (2 - of_nat 3) (rq received3) = ucast (2 - of_nat 3 :: u16)))"
proof -
  have nz: "ring (rq received3) \<noteq> 0" by code_simp
  have run: "prepareAckBits received3 2 = Ret 7" by code_simp
  from prepareAckBits_reports_window [OF nz, of 2]
  obtain bits where ret: "prepareAckBits received3 2 = Ret bits"
    and each: "\<forall>k<32. bit bits k \<longleftrightarrow>
      rq received3 ! slot (2 - of_nat k) (rq received3) = ucast (2 - of_nat k :: u16)"
    by blast
  have "(1::nat) < 32" and "(3::nat) < 32" by simp_all
  with each have "bit bits 1 \<longleftrightarrow>
      rq received3 ! slot (2 - of_nat 1) (rq received3) = ucast (2 - of_nat 1 :: u16)"
    and "bit bits 3 \<longleftrightarrow>
      rq received3 ! slot (2 - of_nat 3) (rq received3) = ucast (2 - of_nat 3 :: u16)"
    by blast+
  with nz run ret show ?thesis by blast
qed

section \<open>Applying ack bits\<close>

lemma readAckBits_loop_round:
  "readAckBits_loop ack idx ackBits c =
     (if \<not> idx < 32 then Ret c
      else if skips ack idx ackBits c then readAckBits_loop ack (idx + 1) (drop_bit 1 ackBits) c
      else if marks ack idx ackBits c
        then readAckBits_loop ack (idx + 1) (drop_bit 1 ackBits) (ackSlot (slot (ack - idx) (wq c)) c)
      else Panic)"
  by (subst readAckBits_loop.simps)
    (auto simp: skips_def marks_def ackSlot_def Let_def ACKBitsetSize_def)

lemma readAckBits_loop_cases:
  assumes "readAckBits_loop ack idx ackBits c = Ret c'"
  obtains (stop) "\<not> idx < 32" "c' = c"
  | (skip) "idx < 32" "skips ack idx ackBits c"
      "readAckBits_loop ack (idx + 1) (drop_bit 1 ackBits) c = Ret c'"
  | (mark) "idx < 32" "\<not> skips ack idx ackBits c" "marks ack idx ackBits c"
      "readAckBits_loop ack (idx + 1) (drop_bit 1 ackBits) (ackSlot (slot (ack - idx) (wq c)) c) = Ret c'"
  using assms by (subst (asm) readAckBits_loop_round) (auto split: if_splits)

lemma rounds_left: "(idx::u16) < 32 \<Longrightarrow> 32 - unat (idx + 1) < 32 - unat idx"
  by (simp add: u16_succ word_less_nat_alt)

lemma readAckBits_loop_frame:
  "readAckBits_loop ack idx ackBits c = Ret c' \<Longrightarrow>
     c' = c\<lparr>pool := pool c', wqe := wqe c'\<rparr> \<and> length (wqe c') = length (wqe c) \<and>
     (\<forall>i. acked (wqe c ! i) \<longrightarrow> wqe c' ! i = wqe c ! i)"
proof (induction "32 - unat idx" arbitrary: idx ackBits c rule: less_induct)
  case less
  from less.prems show ?case
  proof (cases rule: readAckBits_loop_cases)
    case stop
    then show ?thesis by simp
  next
    case skip
    from less.hyps [OF rounds_left [OF skip(1)] skip(3)] show ?thesis .
  next
    case mark
    let ?i = "slot (ack - idx) (wq c)"
    let ?c1 = "ackSlot ?i c"
    from less.hyps [OF rounds_left [OF mark(1)] mark(4)]
    have ih: "c' = ?c1\<lparr>pool := pool c', wqe := wqe c'\<rparr>"
      "length (wqe c') = length (wqe ?c1)"
      "\<forall>i. acked (wqe ?c1 ! i) \<longrightarrow> wqe c' ! i = wqe ?c1 ! i"
      by auto
    from ih(1) have "c' = c\<lparr>pool := pool c', wqe := wqe c'\<rparr>" by (simp add: ackSlot_def)
    moreover from ih(2) have "length (wqe c') = length (wqe c)" by (simp add: ackSlot_def)
    moreover have "wqe c' ! i = wqe c ! i" if "acked (wqe c ! i)" for i
    proof -
      from that mark(3) have "i \<noteq> ?i" by (auto simp: marks_def)
      then have "wqe ?c1 ! i = wqe c ! i" by (simp add: ackSlot_def)
      with ih(3) that show ?thesis by simp
    qed
    ultimately show ?thesis by blast
  qed
qed

text \<open>A state in which every slot the first pass acked is acked is left alone by the
  loop.\<close>

lemma readAckBits_loop_settled:
  "readAckBits_loop ack idx ackBits c = Ret c' \<Longrightarrow>
   wq d = wq c \<Longrightarrow> length (wqe d) = length (wqe c) \<Longrightarrow>
   (\<forall>i. acked (wqe c' ! i) \<longrightarrow> acked (wqe d ! i)) \<Longrightarrow>
   readAckBits_loop ack idx ackBits d = Ret d"
proof (induction "32 - unat idx" arbitrary: idx ackBits c rule: less_induct)
  case less
  note run = less.prems(1) and wq = less.prems(2) and len = less.prems(3) and more = less.prems(4)
  from readAckBits_loop_frame [OF run]
  have keep: "\<And>i. acked (wqe c ! i) \<Longrightarrow> acked (wqe c' ! i)" by simp
  from run show ?case
  proof (cases rule: readAckBits_loop_cases)
    case stop
    then show ?thesis by (subst readAckBits_loop_round) simp
  next
    case skip
    from less.hyps [OF rounds_left [OF skip(1)] skip(3) wq len more]
    have rest: "readAckBits_loop ack (idx + 1) (drop_bit 1 ackBits) d = Ret d" .
    from skip(2) wq len keep more have "skips ack idx ackBits d"
      by (auto simp: skips_def)
    with skip(1) rest show ?thesis by (subst readAckBits_loop_round) simp
  next
    case mark
    let ?i = "slot (ack - idx) (wq c)"
    let ?c1 = "ackSlot ?i c"
    have wq1: "wq d = wq ?c1" and len1: "length (wqe d) = length (wqe ?c1)"
      using wq len by (simp_all add: ackSlot_def)
    from less.hyps [OF rounds_left [OF mark(1)] mark(4) wq1 len1 more]
    have rest: "readAckBits_loop ack (idx + 1) (drop_bit 1 ackBits) d = Ret d" .
    from mark(3) have "acked (wqe ?c1 ! ?i)" by (simp add: marks_def ackSlot_def)
    with readAckBits_loop_frame [OF mark(4)] have "acked (wqe c' ! ?i)" by simp
    with more have "acked (wqe d ! ?i)" by simp
    with mark(3) wq len have "skips ack idx ackBits d"
      by (auto simp: skips_def marks_def)
    with mark(1) rest show ?thesis by (subst readAckBits_loop_round) simp
  qed
qed

text \<open>A slot the loop changes was hit by a set bit.\<close>

lemma readAckBits_loop_touched:
  "readAckBits_loop ack idx ackBits c = Ret c' \<Longrightarrow> wqe c' ! i \<noteq> wqe c ! i \<Longrightarrow>
   \<exists>k. unat idx \<le> k \<and> k < 32 \<and> bit ackBits (k - unat idx) \<and>
     slot (ack - of_nat k) (wq c) = i \<and> wq c ! i = ucast (ack - of_nat k) \<and> \<not> acked (wqe c ! i)"
proof (induction "32 - unat idx" arbitrary: idx ackBits c rule: less_induct)
  case less
  note run = less.prems(1) and changed = less.prems(2)
  from run show ?case
  proof (cases rule: readAckBits_loop_cases)
    case stop
    with changed show ?thesis by simp
  next
    case skip
    from less.hyps [OF rounds_left [OF skip(1)] skip(3) changed]
    obtain k where k: "unat (idx + 1) \<le> k" "k < 32" "bit (drop_bit 1 ackBits) (k - unat (idx + 1))"
      "slot (ack - of_nat k) (wq c) = i" "wq c ! i = ucast (ack - of_nat k)" "\<not> acked (wqe c ! i)"
      by blast
    from k(1) skip(1) have "unat idx \<le> k" "Suc (k - unat (idx + 1)) = k - unat idx"
      by (simp_all add: u16_succ)
    with k show ?thesis by (auto simp: bit_drop_bit_eq)
  next
    case mark
    let ?i = "slot (ack - idx) (wq c)"
    let ?c1 = "ackSlot ?i c"
    show ?thesis
    proof (cases "i = ?i")
      case True
      from mark(3) have "bit ackBits 0" by (simp add: marks_def and_one_eq bit_0 mod_2_eq_odd)
      with mark(3) True mark(1) show ?thesis
        by (intro exI [of _ "unat idx"]) (simp add: marks_def word_less_nat_alt)
    next
      case False
      then have same: "wqe ?c1 ! i = wqe c ! i" by (simp add: ackSlot_def)
      with changed have "wqe c' ! i \<noteq> wqe ?c1 ! i" by simp
      from less.hyps [OF rounds_left [OF mark(1)] mark(4) this]
      obtain k where k: "unat (idx + 1) \<le> k" "k < 32" "bit (drop_bit 1 ackBits) (k - unat (idx + 1))"
        "slot (ack - of_nat k) (wq ?c1) = i" "wq ?c1 ! i = ucast (ack - of_nat k)"
        "\<not> acked (wqe ?c1 ! i)"
        by blast
      from k(1) mark(1) have "unat idx \<le> k" "Suc (k - unat (idx + 1)) = k - unat idx"
        by (simp_all add: u16_succ)
      with k same show ?thesis by (auto simp: bit_drop_bit_eq ackSlot_def)
    qed
  qed
qed

lemma readAckBits_loop_returns:
  "ring (wq c) \<noteq> 0 \<Longrightarrow> length (wq c) \<le> length (wqe c) \<Longrightarrow>
   \<exists>c'. readAckBits_loop ack idx ackBits c = Ret c'"
proof (induction "32 - unat idx" arbitrary: idx ackBits c rule: less_induct)
  case less
  note nz = less.prems(1) and len = less.prems(2)
  show ?case
  proof (cases "idx < 32")
    case False
    then show ?thesis by (subst readAckBits_loop_round) simp
  next
    case True
    let ?i = "slot (ack - idx) (wq c)"
    from slot_less [OF nz, of "ack - idx"] len have i: "?i < length (wqe c)"
      by (rule less_le_trans)
    show ?thesis
    proof (cases "skips ack idx ackBits c")
      case skip: True
      from less.hyps [OF rounds_left [OF True] nz len] skip True show ?thesis
        by (subst readAckBits_loop_round) simp
    next
      case False
      with i nz have m: "marks ack idx ackBits c" by (auto simp: skips_def marks_def)
      have "ring (wq (ackSlot ?i c)) \<noteq> 0" "length (wq (ackSlot ?i c)) \<le> length (wqe (ackSlot ?i c))"
        using nz len by (simp_all add: ackSlot_def)
      from less.hyps [OF rounds_left [OF True] this] False m True show ?thesis
        by (subst readAckBits_loop_round) simp
    qed
  qed
qed

text \<open>
  C6. Applying ack bits is idempotent: for every send window and every \<open>(ack, ackBits)\<close>,
  \<^verbatim>\<open>readAckBits(ack, ackBits)\<close> returns, and applied again to the state it left it changes
  nothing (sequence tags, acked flags, buffers and the pool stay as they are). A slot that
  was acked already, or that no set bit \<open>k\<close> hits with its tag equal to \<open>ack - k\<close>, is left
  as it was by the first application.
\<close>

theorem readAckBits_idempotent:
  assumes "sized c"
  shows "\<exists>c'. readAckBits ack ackBits c = Ret c' \<and> readAckBits ack ackBits c' = Ret c' \<and>
    wq c' = wq c \<and>
    (\<forall>i<length (wqe c).
       acked (wqe c ! i) \<or>
       \<not> (\<exists>k<32. bit ackBits k \<and> slot (ack - of_nat k) (wq c) = i \<and>
              wq c ! i = ucast (ack - of_nat k))
       \<longrightarrow> wqe c' ! i = wqe c ! i)"
proof -
  from assms have nz: "ring (wq c) \<noteq> 0" and len: "length (wq c) \<le> length (wqe c)"
    by (simp_all add: sized_def)
  from readAckBits_loop_returns [OF nz len]
  obtain c' where run: "readAckBits_loop ack 0 ackBits c = Ret c'" by blast
  from readAckBits_loop_frame [OF run]
  have frame: "c' = c\<lparr>pool := pool c', wqe := wqe c'\<rparr>" "length (wqe c') = length (wqe c)"
    by simp_all
  have wq: "wq c' = wq c" by (subst frame(1)) simp
  from readAckBits_loop_settled [OF run wq frame(2)]
  have again: "readAckBits_loop ack 0 ackBits c' = Ret c'" by simp
  have "wqe c' ! i = wqe c ! i"
    if "acked (wqe c ! i) \<or> \<not> (\<exists>k<32. bit ackBits k \<and> slot (ack - of_nat k) (wq c) = i \<and>
              wq c ! i = ucast (ack - of_nat k))" for i
  proof (rule ccontr)
    assume "wqe c' ! i \<noteq> wqe c ! i"
    from readAckBits_loop_touched [OF run this] that show False by auto
  qed
  with run again wq show ?thesis by (auto simp: readAckBits_def)
qed

theorem readAckBits_idempotent_witness:
  "sized sent3 \<and>
   (\<exists>c'. readAckBits 2 7 sent3 = Ret c' \<and> readAckBits 2 7 c' = Ret c' \<and> wq c' = wq sent3 \<and>
      wqe c' ! 1 = wqe sent3 ! 1)"
proof -
  have shape: "sized sent3" by code_simp
  have one: "(1::nat) < length (wqe sent3)" and was: "acked (wqe sent3 ! 1)" by code_simp+
  from readAckBits_idempotent [OF shape, of 2 7]
  obtain c' where "readAckBits 2 7 sent3 = Ret c'" "readAckBits 2 7 c' = Ret c'"
    "wq c' = wq sent3"
    and rest: "\<forall>i<length (wqe sent3).
       acked (wqe sent3 ! i) \<or>
       \<not> (\<exists>k<32. bit (7::u32) k \<and> slot (2 - of_nat k) (wq sent3) = i \<and>
              wq sent3 ! i = ucast (2 - of_nat k :: u16))
       \<longrightarrow> wqe c' ! i = wqe sent3 ! i"
    by blast
  moreover from rest one was have "wqe c' ! 1 = wqe sent3 ! 1" by blast
  ultimately show ?thesis using shape by blast
qed

section \<open>The writer gate\<close>

lemma andThen_Parked:
  "andThen m f = Parked p \<longleftrightarrow> m = Parked p \<or> (\<exists>x. m = Ret x \<and> f x = Parked p)"
  by (cases m) auto

lemma prepareAckBits_loop_not_Parked: "prepareAckBits_loop q ack i m acc \<noteq> Parked p"
proof (induction q ack i m acc rule: prepareAckBits_loop.induct)
  case (1 q ack i m ackBits)
  then show ?case by (subst prepareAckBits_loop.simps) auto
qed

lemma trackAcked_loop_not_Parked: "trackAcked_loop q ack l \<noteq> Parked p"
proof (induction q ack l rule: trackAcked_loop.induct)
  case (1 q ack l)
  then show ?case by (subst trackAcked_loop.simps) auto
qed

lemma trackAcked_loop_returns: "ring q \<noteq> 0 \<Longrightarrow> \<exists>l'. trackAcked_loop q ack l = Ret l'"
proof (induction q ack l rule: trackAcked_loop.induct)
  case (1 q ack l)
  then show ?case by (subst trackAcked_loop.simps) auto
qed

lemma nextAckDetails_not_Parked: "nextAckDetails c \<noteq> Parked p"
  by (simp add: nextAckDetails_def Let_def andThen_Parked prepareAckBits_def
      prepareAckBits_loop_not_Parked)

lemma trackAcked_not_Parked: "trackAcked now ack c \<noteq> Parked p"
  by (simp add: trackAcked_def andThen_Parked trackAcked_loop_not_Parked)

lemma write_packet_not_Parked: "write_packet WriteTo now h bs c \<noteq> Parked p"
  by (auto simp: write_packet_def Let_def andThen_Parked trackWrite_def transmit_def
      split: if_splits option.splits)

lemma prepareAckBits_returns: "ring (rq c) \<noteq> 0 \<Longrightarrow> \<exists>bits. prepareAckBits c ack = Ret bits"
  using prepareAckBits_loop_bits [of "rq c" 0 1 ack 0] by (auto simp: prepareAckBits_def)

lemma trackAcked_returns:
  "ring (rq c) \<noteq> 0 \<Longrightarrow> \<exists>l. trackAcked now ack c = Ret (c\<lparr>lui := l, ls := now\<rparr>)"
  using trackAcked_loop_returns [of "rq c" ack "lui c"] by (auto simp: trackAcked_def)

subsection \<open>Waiting at the gate\<close>

lemma waitUntilReaderAvailable_open:
  "\<not> shut c \<Longrightarrow> waitUntilReaderAvailable c wakes = Ret (c, wakes)"
  by (cases wakes) (auto simp: shut_def)

lemma waitUntilReaderAvailable_shut:
  "shut c \<Longrightarrow> waitUntilReaderAvailable c [] = Parked c"
  "shut c \<Longrightarrow> waitUntilReaderAvailable c (w # wakes) = waitUntilReaderAvailable w wakes"
  by (simp_all add: shut_def)

lemma waitUntilReaderAvailable_not_Panic: "waitUntilReaderAvailable c wakes \<noteq> Panic"
  by (induction wakes arbitrary: c) simp_all

declare waitUntilReaderAvailable.simps [simp del]

lemma waitUntilReaderAvailable_Parked:
  "waitUntilReaderAvailable c wakes = Parked p \<longleftrightarrow>
     (\<forall>s\<in>set (c # wakes). shut s) \<and> p = last (c # wakes)"
proof (induction wakes arbitrary: c)
  case Nil
  show ?case
    by (cases "shut c") (auto simp: waitUntilReaderAvailable_shut waitUntilReaderAvailable_open)
next
  case (Cons w wakes)
  show ?case
  proof (cases "shut c")
    case True
    then show ?thesis using Cons.IH [of w] by (simp add: waitUntilReaderAvailable_shut)
  next
    case False
    then show ?thesis by (simp add: waitUntilReaderAvailable_open)
  qed
qed

lemma waitUntilReaderAvailable_Ret:
  "waitUntilReaderAvailable c wakes = Ret (c0, rest) \<longleftrightarrow>
     (\<exists>pre. c # wakes = pre @ c0 # rest \<and> (\<forall>s\<in>set pre. shut s) \<and> \<not> shut c0)"
proof
  show "waitUntilReaderAvailable c wakes = Ret (c0, rest) \<Longrightarrow>
     \<exists>pre. c # wakes = pre @ c0 # rest \<and> (\<forall>s\<in>set pre. shut s) \<and> \<not> shut c0"
  proof (induction wakes arbitrary: c)
    case Nil
    then have "\<not> shut c" "c0 = c" "rest = []"
      by (cases "shut c";
          simp add: waitUntilReaderAvailable_shut waitUntilReaderAvailable_open)+
    then show ?case by simp
  next
    case (Cons w wakes)
    show ?case
    proof (cases "shut c")
      case True
      with Cons.prems have "waitUntilReaderAvailable w wakes = Ret (c0, rest)"
        by (simp add: waitUntilReaderAvailable_shut)
      from Cons.IH [OF this] obtain pre where
        "w # wakes = pre @ c0 # rest" "\<forall>s\<in>set pre. shut s" "\<not> shut c0" by blast
      with True have "c # w # wakes = (c # pre) @ c0 # rest \<and> (\<forall>s\<in>set (c # pre). shut s) \<and>
        \<not> shut c0" by simp
      then show ?thesis by blast
    next
      case False
      with Cons.prems have "c0 = c" "rest = w # wakes"
        by (simp_all add: waitUntilReaderAvailable_open)
      with False have "c # w # wakes = [] @ c0 # rest \<and> (\<forall>s\<in>set []. shut s) \<and> \<not> shut c0"
        by simp
      then show ?thesis by blast
    qed
  qed
next
  assume "\<exists>pre. c # wakes = pre @ c0 # rest \<and> (\<forall>s\<in>set pre. shut s) \<and> \<not> shut c0"
  then obtain pre where "c # wakes = pre @ c0 # rest" "\<forall>s\<in>set pre. shut s" "\<not> shut c0"
    by blast
  then show "waitUntilReaderAvailable c wakes = Ret (c0, rest)"
  proof (induction pre arbitrary: c wakes)
    case Nil
    then show ?case by (simp add: waitUntilReaderAvailable_open)
  next
    case (Cons a pre)
    from Cons.prems(1) have c: "a = c" and wakes: "wakes = pre @ c0 # rest" by simp_all
    from wakes have "wakes \<noteq> []" by simp
    then obtain w ws where split: "wakes = w # ws" by (auto simp: neq_Nil_conv)
    with wakes have "w # ws = pre @ c0 # rest" by simp
    from Cons.IH [OF this] Cons.prems(2,3)
    have "waitUntilReaderAvailable w ws = Ret (c0, rest)" by simp
    with Cons.prems(2) c split show ?case by (simp add: waitUntilReaderAvailable_shut)
  qed
qed

lemma waitForNextWriteDetails_Parked:
  "waitForNextWriteDetails c wakes = Parked p \<longleftrightarrow> waitUntilReaderAvailable c wakes = Parked p"
  by (auto simp: waitForNextWriteDetails_def andThen_Parked nextWriteIndex_def Let_def
      nextAckDetails_not_Parked)

lemma WriteReliablePacket_Parked:
  "WriteReliablePacket WriteTo now bytes c wakes = Parked p \<longleftrightarrow>
     waitUntilReaderAvailable c wakes = Parked p"
  by (auto simp: WriteReliablePacket_def writePacket_def andThen_Parked
      waitForNextWriteDetails_Parked trackAcked_not_Parked write_packet_not_Parked)

text \<open>
  C1. For every call to \<^verbatim>\<open>WriteReliablePacket\<close>, the caller is parked on the writer gate
  exactly while the connection is not closed and \<open>GT (wi + 1) (oui + W_r)\<close> holds, \<open>W_r\<close> being
  \<^verbatim>\<open>uint16(len(rq))\<close>: it stays parked exactly when that holds of the state it is called on
  and of every state it is woken on, and leaves the last of them untouched. The sequence
  \<open>idx = wi\<close> is assigned, and \<open>wi\<close> incremented, only on the first of these states that is
  closed or has \<open>GT (wi + 1) (oui + W_r)\<close> false; \<^verbatim>\<open>ok\<close> tells which. So at assignment time
  \<open>GT (wi + 1) (oui + W_r)\<close> is false unless the connection is closed.
\<close>

theorem writer_gate:
  "(WriteReliablePacket WriteTo now bytes c wakes = Parked p \<longleftrightarrow>
      (\<forall>s\<in>set (c # wakes). \<not> die s \<and> GT (wi s + 1) (oui s + ring (rq s))) \<and>
      p = last (c # wakes)) \<and>
   (WriteReliablePacket WriteTo now bytes c [] = Parked c \<longleftrightarrow>
      \<not> die c \<and> GT (wi c + 1) (oui c + ring (rq c))) \<and>
   (\<forall>c1 idx ack ackBits ok.
      waitForNextWriteDetails c wakes = Ret (c1, idx, ack, ackBits, ok) \<longrightarrow>
        (\<exists>pre c0 rest.
           c # wakes = pre @ c0 # rest \<and>
           (\<forall>s\<in>set pre. \<not> die s \<and> GT (wi s + 1) (oui s + ring (rq s))) \<and>
           idx = wi c0 \<and> c1 = c0\<lparr>wi := wi c0 + 1\<rparr> \<and> ok = (\<not> die c0) \<and>
           (die c0 \<or> \<not> GT (wi c0 + 1) (oui c0 + ring (rq c0)))))"
proof -
  have parked: "WriteReliablePacket WriteTo now bytes c wakes = Parked p \<longleftrightarrow>
      (\<forall>s\<in>set (c # wakes). \<not> die s \<and> GT (wi s + 1) (oui s + ring (rq s))) \<and>
      p = last (c # wakes)"
    by (simp only: WriteReliablePacket_Parked waitUntilReaderAvailable_Parked shut_def)
  have alone: "WriteReliablePacket WriteTo now bytes c [] = Parked c \<longleftrightarrow>
      \<not> die c \<and> GT (wi c + 1) (oui c + ring (rq c))"
    by (simp add: WriteReliablePacket_Parked waitUntilReaderAvailable_Parked shut_def)
  have assigned: "\<exists>pre c0 rest.
           c # wakes = pre @ c0 # rest \<and>
           (\<forall>s\<in>set pre. \<not> die s \<and> GT (wi s + 1) (oui s + ring (rq s))) \<and>
           idx = wi c0 \<and> c1 = c0\<lparr>wi := wi c0 + 1\<rparr> \<and> ok = (\<not> die c0) \<and>
           (die c0 \<or> \<not> GT (wi c0 + 1) (oui c0 + ring (rq c0)))"
    if "waitForNextWriteDetails c wakes = Ret (c1, idx, ack, ackBits, ok)"
    for c1 idx ack ackBits ok
  proof -
    from that obtain c0 rest where w: "waitUntilReaderAvailable c wakes = Ret (c0, rest)"
      and r: "idx = wi c0" "c1 = c0\<lparr>wi := wi c0 + 1\<rparr>" "ok = (\<not> die c0)"
      by (auto simp: waitForNextWriteDetails_def andThen_Ret nextWriteIndex_def Let_def)
    from w obtain pre where "c # wakes = pre @ c0 # rest" "\<forall>s\<in>set pre. shut s" "\<not> shut c0"
      unfolding waitUntilReaderAvailable_Ret by blast
    with r show ?thesis unfolding shut_def by blast
  qed
  from parked alone assigned show ?thesis by blast
qed

theorem writer_gate_witness:
  "WriteReliablePacket delivers 5 [1] full32 [] = Parked full32 \<and>
   \<not> die full32 \<and> GT (wi full32 + 1) (oui full32 + ring (rq full32)) \<and>
   waitForNextWriteDetails full32 [relieved] = Ret (relieved\<lparr>wi := 33\<rparr>, 32, 65535, 0, True) \<and>
   \<not> GT (wi relieved + 1) (oui relieved + ring (rq relieved)) \<and>
   waitForNextWriteDetails sent3 [] = Ret (sent3\<lparr>wi := 4\<rparr>, 3, 65535, 0, True)"
proof -
  have a: "waitForNextWriteDetails full32 [relieved] =
      Ret (relieved\<lparr>wi := 33\<rparr>, 32, 65535, 0, True)"
    and b: "waitForNextWriteDetails sent3 [] = Ret (sent3\<lparr>wi := 4\<rparr>, 3, 65535, 0, True)"
    and g: "\<not> die full32" "GT (wi full32 + 1) (oui full32 + ring (rq full32))"
    by code_simp+
  from writer_gate [where WriteTo = delivers and now = 5 and bytes = "[1]" and c = full32
      and wakes = "[]", THEN conjunct2, THEN conjunct1] g
  have p: "WriteReliablePacket delivers 5 [1] full32 [] = Parked full32" by simp
  from writer_gate [where c = full32 and wakes = "[relieved]", THEN conjunct2, THEN conjunct2,
      rule_format, OF a]
  obtain pre c0 rest where l: "[full32, relieved] = pre @ c0 # rest"
    and o: "die c0 \<or> \<not> GT (wi c0 + 1) (oui c0 + ring (rq c0))" and d: "True = (\<not> die c0)"
    by blast
  from l have "c0 = full32 \<or> c0 = relieved" by (auto simp: Cons_eq_append_conv)
  with o d g have "\<not> GT (wi relieved + 1) (oui relieved + ring (rq relieved))" by blast
  with a b g p show ?thesis by blast
qed

text \<open>On a closed connection the sequence is assigned all the same, also with a full
  window: \<open>wi\<close> moves from 32 to 33 while \<open>GT (wi + 1) (oui + W_r)\<close> holds, and \<^verbatim>\<open>ok\<close> is
  false.\<close>

theorem writer_gate_counterexample:
  "die (Close full32) \<and>
   GT (wi (Close full32) + 1) (oui (Close full32) + ring (rq (Close full32))) \<and>
   waitForNextWriteDetails (Close full32) [] =
     Ret ((Close full32)\<lparr>wi := 33\<rparr>, 32, 65535, 0, False)"
  by code_simp

section \<open>Close\<close>

text \<open>
  C8. \<^verbatim>\<open>Close\<close> sets \<^verbatim>\<open>die\<close>, closes the channel \<^verbatim>\<open>exit\<close> and broadcasts, the first time it is
  called, and does nothing after that. It leaves the send ring, every send slot with the
  buffer it retains, and the pool as they are: it hands no buffer back.
\<close>

theorem Close_releases_nothing:
  "Close c = (if die c then c else c\<lparr>exit := True, die := True\<rparr>) \<and>
   die (Close c) \<and> wq (Close c) = wq c \<and> wqe (Close c) = wqe c \<and> pool (Close c) = pool c"
  by (simp add: Close_def close_def)

text \<open>The buffer of packet 0, live in its send slot, is in its slot still after \<^verbatim>\<open>Close\<close>,
  and the pool has been given nothing.\<close>

theorem Close_releases_nothing_counterexample:
  "\<not> die sent3 \<and>
   buf (wqe sent3 ! 0) = Some (Buffer (zeroHeader\<lparr>Sequence := 0, ACK := 65535\<rparr>) [10]) \<and>
   buf (wqe (Close sent3) ! 0) =
     Some (Buffer (zeroHeader\<lparr>Sequence := 0, ACK := 65535\<rparr>) [10]) \<and>
   pool (Close sent3) = []"
  by code_simp

text \<open>
  C2. After \<^verbatim>\<open>Close\<close> the connection is closed (\<^verbatim>\<open>die\<close>), and on a closed connection every
  call to \<^verbatim>\<open>WriteReliablePacket\<close> returns \<^verbatim>\<open>io.EOF\<close>: it consumes a sequence and does nothing
  else, so it passes no datagram to the transport and the connection stays closed. So does
  a writer parked at the gate that is woken on a closed connection.
\<close>

theorem reliable_write_after_Close:
  "die (Close c) \<and>
   (die c \<and> ring (rq c) \<noteq> 0 \<longrightarrow>
      (\<exists>c'. WriteReliablePacket WriteTo now bytes c wakes = Ret (c', Some EOF) \<and>
         c' = c\<lparr>wi := wi c + 1\<rparr> \<and> conn c' = conn c \<and> die c')) \<and>
   (\<not> die c \<and> GT (wi c + 1) (oui c + ring (rq c)) \<and> die w \<and> ring (rq w) \<noteq> 0 \<longrightarrow>
      (\<exists>c'. WriteReliablePacket WriteTo now bytes c (w # wakes) = Ret (c', Some EOF) \<and>
         c' = w\<lparr>wi := wi w + 1\<rparr> \<and> conn c' = conn w \<and> die c'))"
proof -
  have "die (Close c)" by (simp add: Close_def close_def)
  moreover have closed: "\<exists>c'. WriteReliablePacket WriteTo now bytes c ws = Ret (c', Some EOF) \<and>
         c' = c\<lparr>wi := wi c + 1\<rparr> \<and> conn c' = conn c \<and> die c'"
    if "die c" and "ring (rq c) \<noteq> 0" for c ws
  proof -
    from that(1) have "waitUntilReaderAvailable c ws = Ret (c, ws)"
      by (simp add: waitUntilReaderAvailable_open shut_def)
    moreover from prepareAckBits_returns [of "c\<lparr>wi := wi c + 1\<rparr>" "ri c - 1"] that(2)
    obtain bits where "prepareAckBits (c\<lparr>wi := wi c + 1\<rparr>) (ri c - 1) = Ret bits" by auto
    ultimately show ?thesis using that(1)
      by (simp add: WriteReliablePacket_def writePacket_def waitForNextWriteDetails_def
          nextWriteIndex_def nextAckDetails_def Let_def)
  qed
  moreover have "\<exists>c'. WriteReliablePacket WriteTo now bytes c (w # wakes) = Ret (c', Some EOF) \<and>
         c' = w\<lparr>wi := wi w + 1\<rparr> \<and> conn c' = conn w \<and> die c'"
    if "\<not> die c" "GT (wi c + 1) (oui c + ring (rq c))" "die w" "ring (rq w) \<noteq> 0"
  proof -
    from that(1,2) have "waitUntilReaderAvailable c (w # wakes) = waitUntilReaderAvailable w wakes"
      by (simp add: waitUntilReaderAvailable_shut shut_def)
    then have "WriteReliablePacket WriteTo now bytes c (w # wakes) =
        WriteReliablePacket WriteTo now bytes w wakes"
      by (simp add: WriteReliablePacket_def writePacket_def waitForNextWriteDetails_def)
    with closed [OF that(3,4), of wakes] show ?thesis by simp
  qed
  ultimately show ?thesis by blast
qed

theorem reliable_write_after_Close_witness:
  "die (Close sent3) \<and> ring (rq (Close sent3)) \<noteq> 0 \<and>
   WriteReliablePacket delivers 5 [1] (Close sent3) [] =
     Ret ((Close sent3)\<lparr>wi := 4\<rparr>, Some EOF) \<and>
   conn ((Close sent3)\<lparr>wi := 4\<rparr>) = conn sent3 \<and>
   \<not> die full32 \<and> GT (wi full32 + 1) (oui full32 + ring (rq full32)) \<and>
   WriteReliablePacket delivers 5 [1] full32 [Close full32] =
     Ret ((Close full32)\<lparr>wi := 33\<rparr>, Some EOF)"
proof -
  have d: "die (Close sent3)" and r: "ring (rq (Close sent3)) \<noteq> 0"
    and w: "wi (Close sent3) + 1 = 4" and k: "conn ((Close sent3)\<lparr>wi := 4\<rparr>) = conn sent3"
    and g: "\<not> die full32" "GT (wi full32 + 1) (oui full32 + ring (rq full32))"
      "die (Close full32)" "ring (rq (Close full32)) \<noteq> 0"
    and v: "wi (Close full32) + 1 = 33"
    by code_simp+
  from reliable_write_after_Close [where c = "Close sent3" and WriteTo = delivers and now = 5
      and bytes = "[1]" and wakes = "[]"] d r w
  have a: "WriteReliablePacket delivers 5 [1] (Close sent3) [] =
     Ret ((Close sent3)\<lparr>wi := 4\<rparr>, Some EOF)" by auto
  from reliable_write_after_Close [where c = full32 and WriteTo = delivers and now = 5
      and bytes = "[1]" and w = "Close full32" and wakes = "[]"] g v
  have b: "WriteReliablePacket delivers 5 [1] full32 [Close full32] =
     Ret ((Close full32)\<lparr>wi := 33\<rparr>, Some EOF)" by auto
  from a b d r k g show ?thesis by blast
qed

text \<open>\<^verbatim>\<open>WriteUnreliablePacket\<close> never reads \<^verbatim>\<open>die\<close>: on a closed connection it returns nil and
  the datagram has gone to the transport.\<close>

theorem reliable_write_after_Close_counterexample:
  "die (Close received3) \<and>
   WriteUnreliablePacket delivers 5 [1] (Close received3) =
     Ret ((Close received3)\<lparr>lui := 3, ls := 5,
            pool := [Buffer \<lparr>Sequence = 0, ACK = 2, ACKBits = 7, Unordered = True,
                             Empty = False\<rparr> [1]],
            conn := [Buffer \<lparr>Sequence = 0, ACK = 2, ACKBits = 7, Unordered = True,
                             Empty = False\<rparr> [1]]\<rparr>,
          None)"
  by code_simp

section \<open>Unreliable writes\<close>

text \<open>
  C9. For every call to \<^verbatim>\<open>WriteUnreliablePacket\<close>, the packet passed to the transport carries
  the header sequence 0 (\<^verbatim>\<open>idx\<close> keeps its zero value: \<open>wi\<close> is neither read nor advanced),
  the current \<open>ack = ri - 1\<close> with its ack bits, and \<^verbatim>\<open>Unordered\<close>; no send-window state is
  stored for it.
\<close>

theorem unreliable_write_sequence:
  assumes "ring (rq c) \<noteq> 0"
  shows "\<exists>ackBits c' err.
    prepareAckBits c (ri c - 1) = Ret ackBits \<and>
    WriteUnreliablePacket WriteTo now bytes c = Ret (c', err) \<and>
    conn c' = conn c @ [Buffer \<lparr>Sequence = 0, ACK = ri c - 1, ACKBits = ackBits,
                              Unordered = True, Empty = False\<rparr> bytes] \<and>
    wi c' = wi c \<and> wq c' = wq c \<and> wqe c' = wqe c"
proof -
  from prepareAckBits_returns [OF assms]
  obtain bits where bits: "prepareAckBits c (ri c - 1) = Ret bits" by blast
  from trackAcked_returns [OF assms]
  obtain l where l: "trackAcked now (ri c - 1) c = Ret (c\<lparr>lui := l, ls := now\<rparr>)" by blast
  from bits l show ?thesis
    by (auto simp: WriteUnreliablePacket_def writePacket_def nextAckDetails_def Let_def
        write_packet_def transmit_def isEOF_def split: wrote.splits)
qed

text \<open>With \<open>wi = 3\<close> the packet goes out with sequence 0, not 3.\<close>

theorem unreliable_write_sequence_counterexample:
  "wi sent3 = 3 \<and>
   WriteUnreliablePacket delivers 5 [1] sent3 =
     Ret (sent3\<lparr>ls := 5,
            pool := [Buffer \<lparr>Sequence = 0, ACK = 65535, ACKBits = 0, Unordered = True,
                             Empty = False\<rparr> [1]],
            conn := [Buffer \<lparr>Sequence = 0, ACK = 65535, ACKBits = 0, Unordered = True,
                             Empty = False\<rparr> [1]]\<rparr>,
          None)"
  by code_simp

theorem unreliable_write_sequence_witness:
  "ring (rq sent3) \<noteq> 0 \<and>
   (\<exists>ackBits c' err.
    prepareAckBits sent3 (ri sent3 - 1) = Ret ackBits \<and>
    WriteUnreliablePacket delivers 5 [1] sent3 = Ret (c', err) \<and>
    conn c' = conn sent3 @ [Buffer \<lparr>Sequence = 0, ACK = ri sent3 - 1, ACKBits = ackBits,
                              Unordered = True, Empty = False\<rparr> [1]] \<and>
    wi c' = wi sent3 \<and> wq c' = wq sent3 \<and> wqe c' = wqe sent3)"
proof -
  have r: "ring (rq sent3) \<noteq> 0" by code_simp
  from unreliable_write_sequence [OF r, of delivers 5 "[1]"] r show ?thesis by blast
qed

section \<open>trackAcked\<close>

text \<open>The loop of \<^verbatim>\<open>trackAcked\<close> tests \<^verbatim>\<open>lui <= ack\<close> on the two \<^verbatim>\<open>uint16\<close> as plain numbers:
  an \<open>ack\<close> below \<open>lui\<close> ends it at once, and only the timestamp changes.\<close>

lemma trackAcked_behind: "ack < lui c \<Longrightarrow> trackAcked now ack c = Ret (c\<lparr>ls := now\<rparr>)"
  by (subst trackAcked_def, subst trackAcked_loop.simps) (simp add: not_le [symmetric])

text \<open>
  C3. \<^verbatim>\<open>trackAcked(ack)\<close> after the wrap: the receive window records 65535, 0 and 1, \<open>lui\<close> is
  65535 and recorded by its slot, and \<open>ack = 1\<close> is after \<open>lui\<close> in serial-number order. The call
  sets the last-send timestamp and leaves \<open>lui\<close> at 65535: \<^verbatim>\<open>65535 <= 1\<close> is false.
\<close>

theorem trackAcked_plain_order:
  "lui wrapped = 65535 \<and>
   rq wrapped ! slot (lui wrapped) (rq wrapped) = ucast (lui wrapped) \<and>
   GT 1 (lui wrapped) \<and>
   trackAcked 9 1 wrapped = Ret (wrapped\<lparr>lui := 65535, ls := 9\<rparr>)"
  by code_simp

section \<open>Standalone acks\<close>

lemma createAckIfNecessary_loop_round:
  "createAckIfNecessary_loop q l i =
     (if \<not> i < 32 then Ret True
      else if ring q = 0 then Panic
      else if q ! slot (l + i) q \<noteq> ucast (l + i) then Ret False
      else createAckIfNecessary_loop q l (i + 1))"
  by (subst createAckIfNecessary_loop.simps) (simp add: ACKBitsetSize_def)

lemma createAckIfNecessary_loop_full:
  "ring q \<noteq> 0 \<Longrightarrow>
   (\<forall>k. unat i \<le> k \<and> k < 32 \<longrightarrow> q ! slot (l + of_nat k) q = ucast (l + of_nat k)) \<Longrightarrow>
   createAckIfNecessary_loop q l i = Ret True"
proof (induction "32 - unat i" arbitrary: i rule: less_induct)
  case less
  show ?case
  proof (cases "i < 32")
    case False
    then show ?thesis by (subst createAckIfNecessary_loop_round) simp
  next
    case True
    then have "unat i < 32" by (simp add: word_less_nat_alt)
    with less.prems(2) [rule_format, of "unat i"] have here: "q ! slot (l + i) q = ucast (l + i)"
      by simp
    have "\<forall>k. unat (i + 1) \<le> k \<and> k < 32 \<longrightarrow> q ! slot (l + of_nat k) q = ucast (l + of_nat k)"
      using less.prems(2) True by (simp add: u16_succ)
    from less.hyps [OF rounds_left [OF True] less.prems(1) this] here True less.prems(1)
    show ?thesis by (subst createAckIfNecessary_loop_round) simp
  qed
qed

lemma createAckIfNecessary_loop_gap:
  "ring q \<noteq> 0 \<Longrightarrow> unat i \<le> k \<Longrightarrow> k < 32 \<Longrightarrow>
   q ! slot (l + of_nat k) q \<noteq> ucast (l + of_nat k) \<Longrightarrow>
   createAckIfNecessary_loop q l i = Ret False"
proof (induction "32 - unat i" arbitrary: i rule: less_induct)
  case less
  from less.prems(2,3) have lt: "i < 32" by (simp add: word_less_nat_alt)
  show ?case
  proof (cases "q ! slot (l + i) q \<noteq> ucast (l + i)")
    case True
    with lt less.prems(1) show ?thesis by (subst createAckIfNecessary_loop_round) simp
  next
    case False
    with less.prems(4) have "k \<noteq> unat i" by auto
    with less.prems(2) lt have "unat (i + 1) \<le> k" by (simp add: u16_succ)
    from less.hyps [OF rounds_left [OF lt] less.prems(1) this less.prems(3,4)] False lt less.prems(1)
    show ?thesis by (subst createAckIfNecessary_loop_round) simp
  qed
qed

lemma createAckIfNecessary_loop_windowFull:
  assumes "ring (rq c) \<noteq> 0"
  shows "createAckIfNecessary_loop (rq c) (lui c) 0 = Ret (windowFull c)"
proof (cases "windowFull c")
  case True
  with createAckIfNecessary_loop_full [OF assms, of 0 "lui c"] show ?thesis
    by (simp add: windowFull_def)
next
  case False
  then obtain k where "k < 32" "rq c ! slot (lui c + of_nat k) (rq c) \<noteq> ucast (lui c + of_nat k)"
    by (auto simp: windowFull_def)
  with createAckIfNecessary_loop_gap [OF assms, of 0 k "lui c"] False show ?thesis by simp
qed

lemma prepareAckBits_full:
  assumes "ring (rq c) \<noteq> 0" and "windowFull c"
  shows "prepareAckBits_loop (rq c) (lui c + 31) 0 1 0 = Ret 0xFFFFFFFF"
proof -
  from prepareAckBits_loop_bits [of "rq c" 0 1 "lui c + 31" 0] assms(1)
  obtain bits where run: "prepareAckBits_loop (rq c) (lui c + 31) 0 1 0 = Ret bits"
    and each: "\<And>k. bit bits k \<longleftrightarrow>
      k < 32 \<and> rq c ! slot (lui c + 31 - of_nat k) (rq c) = ucast (lui c + 31 - of_nat k)"
    by auto
  have "bit bits k" if "k < 32" for k
  proof -
    from that have eq: "lui c + 31 - of_nat k = lui c + of_nat (31 - k)"
      by (simp add: of_nat_diff)
    have "31 - k < 32" by simp
    with assms(2)
    have "rq c ! slot (lui c + of_nat (31 - k)) (rq c) = ucast (lui c + of_nat (31 - k))"
      unfolding windowFull_def by blast
    then have "rq c ! slot (lui c + 31 - of_nat k) (rq c) = ucast (lui c + 31 - of_nat k)"
      by (simp only: eq)
    with each [of k] that show ?thesis by blast
  qed
  then have "bits = - 1" by (intro bit_eqI) (auto simp: bit_simps)
  moreover have "(- 1 :: u32) = 0xFFFFFFFF" by simp
  ultimately show ?thesis using run by simp
qed

lemma createAckIfNecessary_eq:
  assumes "ring (rq c) \<noteq> 0"
  shows "createAckIfNecessary now c wakes =
    (if \<not> windowFull c then Ret (c, zeroHeader, False, wakes)
     else
       andThen (waitUntilReaderAvailable (c\<lparr>lui := lui c + 32, ls := now\<rparr>) wakes)
         (\<lambda>(c0, rest).
            andThen (prepareAckBits c0 (lui c + 31)) (\<lambda>ackBits.
              Ret (c0\<lparr>wi := wi c0 + 1\<rparr>, ackHeader (wi c0) (lui c + 31) ackBits, \<not> die c0,
                   rest))))"
proof (cases "windowFull c")
  case False
  with createAckIfNecessary_loop_windowFull [OF assms] show ?thesis
    by (simp add: createAckIfNecessary_def)
next
  case True
  have "lui c + 32 - 1 = lui c + 31" by simp
  with True createAckIfNecessary_loop_windowFull [OF assms]
  show ?thesis
    by (simp add: createAckIfNecessary_def Let_def ACKBitsetSize_def nextWriteIndex_def
        prepareAckBits_def ackHeader_def add.commute)
qed

text \<open>Without a wait: the gate is open on the state the loop has just written \<open>lui\<close> and
  \<open>ls\<close> to, and every bit of the ack bitset is set.\<close>

lemma createAckIfNecessary_open:
  assumes "ring (rq c) \<noteq> 0" and "windowFull c" and "\<not> shut c"
  shows "waitUntilReaderAvailable (c\<lparr>lui := lui c + 32, ls := now\<rparr>) wakes =
      Ret (c\<lparr>lui := lui c + 32, ls := now\<rparr>, wakes)"
    and "prepareAckBits (c\<lparr>lui := lui c + 32, ls := now\<rparr>) (lui c + 31) = Ret 0xFFFFFFFF"
proof -
  from assms(3) have "\<not> shut (c\<lparr>lui := lui c + 32, ls := now\<rparr>)" by (simp add: shut_def)
  then show "waitUntilReaderAvailable (c\<lparr>lui := lui c + 32, ls := now\<rparr>) wakes =
      Ret (c\<lparr>lui := lui c + 32, ls := now\<rparr>, wakes)"
    by (rule waitUntilReaderAvailable_open)
  from prepareAckBits_full [OF assms(1,2)]
  show "prepareAckBits (c\<lparr>lui := lui c + 32, ls := now\<rparr>) (lui c + 31) = Ret 0xFFFFFFFF"
    by (simp add: prepareAckBits_def)
qed

subsection \<open>What the send path keeps\<close>

lemma length_emptyRange: "length (emptyRange from n q) = length q"
  by (simp add: emptyRange_def emptyBufferIndices_def)

lemma length_clearRing: "length (clearRing start endi q) = length q"
  by (simp add: clearRing_def Let_def length_emptyRange emptyBufferIndices_def)

lemma ring_clearRing: "ring (clearRing start endi q) = ring q"
  by (simp add: ring_def length_clearRing)

lemma trackWrite_sized:
  assumes "sized c"
  shows "\<exists>c'. trackWrite now idx b c = Ret c' \<and> sized c' \<and> rq c' = rq c \<and> ri c' = ri c \<and>
    ph c' = ph c \<and> die c' = die c \<and> lui c' = lui c \<and> conn c' = conn c"
proof -
  let ?c1 = "if GT (idx + 1) (wi c) then (clearWrites (wi c) idx c)\<lparr>wi := idx + 1\<rparr> else c"
  from assms have s1: "sized ?c1"
    by (simp add: sized_def clearWrites_def ring_clearRing length_clearRing)
  then have nz: "ring (wq ?c1) \<noteq> 0" and len: "length (wqe ?c1) = length (wq ?c1)"
    by (simp_all add: sized_def)
  from slot_less [OF nz, of idx] len have i: "slot idx (wq ?c1) < length (wqe ?c1)" by simp
  have same: "rq ?c1 = rq c" "ri ?c1 = ri c" "ph ?c1 = ph c" "die ?c1 = die c" "lui ?c1 = lui c"
    "conn ?c1 = conn c"
    by (simp_all add: clearWrites_def)
  have "trackWrite now idx b c =
      Ret (?c1\<lparr>wq := (wq ?c1)[slot idx (wq ?c1) := ucast idx],
                pool := pool ?c1 @ (case buf (wqe ?c1 ! slot idx (wq ?c1)) of None \<Rightarrow> []
                                    | Some old \<Rightarrow> [old]),
                wqe := (wqe ?c1)[slot idx (wq ?c1) := \<lparr>buf = Some b, acked = False,
                                  written = now, resent = 0\<rparr>]\<rparr>)"
    using nz i unfolding trackWrite_def Let_def by (simp only: if_False not_le [symmetric])
  moreover from s1 have "sized (?c1\<lparr>wq := (wq ?c1)[slot idx (wq ?c1) := ucast idx],
                pool := pool ?c1 @ (case buf (wqe ?c1 ! slot idx (wq ?c1)) of None \<Rightarrow> []
                                    | Some old \<Rightarrow> [old]),
                wqe := (wqe ?c1)[slot idx (wq ?c1) := \<lparr>buf = Some b, acked = False,
                                  written = now, resent = 0\<rparr>]\<rparr>)"
    by (simp add: sized_def ring_def)
  ultimately show ?thesis using same by simp
qed

lemma write_packet_sized:
  assumes "sized c"
  shows "\<exists>c' err. write_packet WriteTo now h bs c = Ret (c', err) \<and> sized c' \<and> rq c' = rq c \<and>
    ri c' = ri c \<and> ph c' = ph c \<and> die c' = die c \<and> lui c' = lui c \<and>
    conn c' = conn c @ [Buffer h bs]"
proof (cases "Unordered h")
  case True
  with assms show ?thesis
    by (auto simp: write_packet_def Let_def transmit_def sized_def split: option.splits)
next
  case False
  from trackWrite_sized [OF assms, of now "Sequence h" "Buffer h bs"]
  obtain c1 where "trackWrite now (Sequence h) (Buffer h bs) c = Ret c1" "sized c1" "rq c1 = rq c"
    "ri c1 = ri c" "ph c1 = ph c" "die c1 = die c" "lui c1 = lui c" "conn c1 = conn c"
    by blast
  with False show ?thesis
    by (auto simp: write_packet_def Let_def transmit_def sized_def split: option.splits)
qed

lemma not_GT_self: "\<not> GT a a"
  by (simp add: GT_def)

lemma readAckBits_sized:
  assumes "sized c"
  shows "\<exists>c1. readAckBits ack ackBits c = Ret c1 \<and> c1 = c\<lparr>pool := pool c1, wqe := wqe c1\<rparr> \<and>
    sized c1"
proof -
  from assms have nz: "ring (wq c) \<noteq> 0" and len: "length (wq c) \<le> length (wqe c)"
    by (simp_all add: sized_def)
  from readAckBits_loop_returns [OF nz len]
  obtain c1 where run: "readAckBits_loop ack 0 ackBits c = Ret c1" by blast
  from readAckBits_loop_frame [OF run]
  have frame: "c1 = c\<lparr>pool := pool c1, wqe := wqe c1\<rparr>" "length (wqe c1) = length (wqe c)"
    by simp_all
  have "wq c1 = wq c" "rq c1 = rq c" by (subst frame(1), simp)+
  with assms frame(2) have "sized c1" by (simp add: sized_def)
  with run frame(1) show ?thesis by (simp add: readAckBits_def)
qed

lemma trackWrite_next:
  assumes "sized c" and "wi c = idx + 1"
  shows "trackWrite now idx b c =
    Ret (c\<lparr>wq := (wq c)[slot idx (wq c) := ucast idx],
           pool := pool c @ (case buf (wqe c ! slot idx (wq c)) of None \<Rightarrow> [] | Some old \<Rightarrow> [old]),
           wqe := (wqe c)[slot idx (wq c) := \<lparr>buf = Some b, acked = False, written = now,
                                              resent = 0\<rparr>]\<rparr>)"
proof -
  from assms(1) have nz: "ring (wq c) \<noteq> 0" and len: "length (wqe c) = length (wq c)"
    by (simp_all add: sized_def)
  from slot_less [OF nz, of idx] len have "\<not> length (wqe c) \<le> slot idx (wq c)" by simp
  with nz assms(2) show ?thesis by (simp add: trackWrite_def Let_def not_GT_self)
qed

subsection \<open>The ack loop\<close>

text \<open>With a receive ring that is not empty, one round of \<^verbatim>\<open>writeAcksIfNecessary\<close> in closed
  form.\<close>

lemma writeAcksIfNecessary_round:
  assumes "ring (rq c) \<noteq> 0"
  shows "writeAcksIfNecessary WriteTo now c wakes =
    (if \<not> windowFull c then Ret (c, None)
     else
       (case waitUntilReaderAvailable (c\<lparr>lui := lui c + 32, ls := now\<rparr>) wakes of
          Panic \<Rightarrow> Panic
        | Parked p \<Rightarrow> Parked p
        | Ret (c0, rest) \<Rightarrow>
            (case prepareAckBits c0 (lui c + 31) of
               Panic \<Rightarrow> Panic
             | Parked p \<Rightarrow> Parked p
             | Ret ackBits \<Rightarrow>
                 if die c0 then Ret (c0\<lparr>wi := wi c0 + 1\<rparr>, None)
                 else
                   (case write_packet WriteTo now (ackHeader (wi c0) (lui c + 31) ackBits) []
                           (c0\<lparr>wi := wi c0 + 1\<rparr>) of
                      Panic \<Rightarrow> Panic
                    | Parked p \<Rightarrow> Parked p
                    | Ret (c2, Some e) \<Rightarrow>
                        Ret (c2, Some (Errorf ''failed to write ack packet'' e))
                    | Ret (c2, None) \<Rightarrow> writeAcksIfNecessary WriteTo now c2 rest))))"
  by (subst writeAcksIfNecessary.simps)
    (simp add: createAckIfNecessary_eq [OF assms] split: go.splits prod.splits)

text \<open>One ack written: the packet goes to the transport, \<open>wi\<close> has moved on by one, and as
  the packet is not \<^verbatim>\<open>Unordered\<close> \<^verbatim>\<open>write\<close> hands it to \<^verbatim>\<open>trackWrite\<close>, which reserves its send
  slot. The receive side and \<open>lui\<close> are as they were.\<close>

lemma write_ack_sized:
  assumes "sized c"
  shows "\<exists>c2 err.
    write_packet WriteTo now (ackHeader (wi c) a bits) [] (c\<lparr>wi := wi c + 1\<rparr>) = Ret (c2, err) \<and>
    sized c2 \<and> kept c c2 \<and> lui c2 = lui c \<and>
    conn c2 = conn c @ [Buffer (ackHeader (wi c) a bits) []] \<and> wi c2 = wi c + 1 \<and>
    wq c2 ! slot (wi c) (wq c) = ucast (wi c) \<and>
    wqe c2 ! slot (wi c) (wq c) =
      \<lparr>buf = Some (Buffer (ackHeader (wi c) a bits) []), acked = False, written = now,
       resent = 0\<rparr>"
proof -
  let ?h = "ackHeader (wi c) a bits"
  let ?c1 = "c\<lparr>wi := wi c + 1\<rparr>"
  let ?i = "slot (wi c) (wq c)"
  from assms have nzw: "ring (wq c) \<noteq> 0" and len: "length (wqe c) = length (wq c)"
    by (simp_all add: sized_def)
  have s1: "sized ?c1" using assms by (simp add: sized_def)
  have i: "?i < length (wq c)" "?i < length (wqe c)"
    using slot_less [OF nzw, of "wi c"] len by simp_all
  have tw: "trackWrite now (wi c) (Buffer ?h []) ?c1 =
      Ret (?c1\<lparr>wq := (wq c)[?i := ucast (wi c)],
             pool := pool c @ (case buf (wqe c ! ?i) of None \<Rightarrow> [] | Some old \<Rightarrow> [old]),
             wqe := (wqe c)[?i := \<lparr>buf = Some (Buffer ?h []), acked = False,
                                   written = now, resent = 0\<rparr>]\<rparr>)"
    using trackWrite_next [OF s1, of "wi c" now "Buffer ?h []"] by simp
  from write_packet_sized [OF s1, of WriteTo now ?h "[]"]
  obtain c2 err where w: "write_packet WriteTo now ?h [] ?c1 = Ret (c2, err)"
    and c2: "sized c2" "rq c2 = rq c" "ri c2 = ri c" "ph c2 = ph c" "die c2 = die c"
      "lui c2 = lui c" "conn c2 = conn c @ [Buffer ?h []]"
    by auto
  from w tw i have props: "wi c2 = wi c + 1" "wq c2 ! ?i = ucast (wi c)"
      "wqe c2 ! ?i = \<lparr>buf = Some (Buffer ?h []), acked = False, written = now, resent = 0\<rparr>"
    by (auto simp: write_packet_def ackHeader_def Let_def transmit_def
        split: option.splits if_splits)
  from w c2 props show ?thesis by (simp add: kept_def)
qed

lemma kept_trans: "kept a b \<Longrightarrow> kept b c \<Longrightarrow> kept a c"
  by (simp add: kept_def)

text \<open>On connections of the shape \<^verbatim>\<open>NewConn\<close> gives the loop never panics and keeps that
  shape. What it leaves of the receive ring, \<open>ri\<close>, the handler's calls and \<open>die\<close> is what
  it was called on or woken on: when it stays parked, at a gate that is shut, it is what
  the last of these states holds.\<close>

lemma writeAcksIfNecessary_sized:
  "sized c \<Longrightarrow> \<forall>w\<in>set wakes. sized w \<Longrightarrow>
   (case writeAcksIfNecessary WriteTo now c wakes of
      Panic \<Rightarrow> False
    | Parked p \<Rightarrow> sized p \<and> shut p \<and> kept (last (c # wakes)) p
    | Ret (c', err) \<Rightarrow> sized c' \<and> (\<exists>b\<in>set (c # wakes). kept b c'))"
proof (induction WriteTo now c wakes rule: writeAcksIfNecessary.induct)
  case (1 WriteTo now c wakes)
  note shape = "1.prems"(1) and shapes = "1.prems"(2)
  from shape have nz: "ring (rq c) \<noteq> 0" by (simp add: sized_def)
  let ?c1 = "c\<lparr>lui := lui c + 32, ls := now\<rparr>"
  have s1: "sized ?c1" using shape by (simp add: sized_def)
  have k1: "kept c ?c1" by (simp add: kept_def)
  show ?case
  proof (cases "windowFull c")
    case False
    then have "writeAcksIfNecessary WriteTo now c wakes = Ret (c, None)"
      by (subst writeAcksIfNecessary_round [OF nz]) simp
    with shape show ?thesis by (simp add: kept_def)
  next
    case full: True
    show ?thesis
    proof (cases "waitUntilReaderAvailable ?c1 wakes")
      case Panic
      then show ?thesis by (simp add: waitUntilReaderAvailable_not_Panic)
    next
      case (Parked p)
      then have every: "\<forall>s\<in>set (?c1 # wakes). shut s" and p: "p = last (?c1 # wakes)"
        by (simp_all add: waitUntilReaderAvailable_Parked)
      have res: "writeAcksIfNecessary WriteTo now c wakes = Parked p"
        using full Parked by (subst writeAcksIfNecessary_round [OF nz]) simp
      have "sized p \<and> shut p \<and> kept (last (c # wakes)) p"
      proof (cases "wakes = []")
        case True
        with p s1 every k1 show ?thesis by simp
      next
        case False
        then have "last wakes \<in> set wakes" by simp
        with False p every shapes show ?thesis by (simp add: kept_def)
      qed
      with res show ?thesis by simp
    next
      case (Ret r)
      obtain c0 rest where r: "r = (c0, rest)" by (cases r)
      with Ret have w: "waitUntilReaderAvailable ?c1 wakes = Ret (c0, rest)" by simp
      then obtain pre where l: "?c1 # wakes = pre @ c0 # rest" and gate: "\<not> shut c0"
        by (auto simp: waitUntilReaderAvailable_Ret)
      obtain b0 where b0: "b0 \<in> set (c # wakes)" "kept b0 c0" "sized c0"
        "last (b0 # rest) = last (c # wakes)" and sub: "set rest \<subseteq> set wakes"
      proof (cases pre)
        case Nil
        with l have "c0 = ?c1" "rest = wakes" by simp_all
        with k1 s1 that [of c] show ?thesis by simp
      next
        case (Cons a pre')
        with l have wk: "wakes = pre' @ c0 # rest" by simp
        then have "c0 \<in> set wakes" "set rest \<subseteq> set wakes"
          "last (c0 # rest) = last (c # wakes)" by auto
        with shapes that [of c0] show ?thesis by (simp add: kept_def)
      qed
      from sub shapes have shapes': "\<forall>w\<in>set rest. sized w" by blast
      from b0(3) have nz0: "ring (rq c0) \<noteq> 0" by (simp add: sized_def)
      from prepareAckBits_returns [OF nz0]
      obtain bits where bits: "prepareAckBits c0 (lui c + 31) = Ret bits" by blast
      show ?thesis
      proof (cases "die c0")
        case True
        with full w bits
        have res: "writeAcksIfNecessary WriteTo now c wakes = Ret (c0\<lparr>wi := wi c0 + 1\<rparr>, None)"
          by (subst writeAcksIfNecessary_round [OF nz]) simp
        have "sized (c0\<lparr>wi := wi c0 + 1\<rparr>)" "kept b0 (c0\<lparr>wi := wi c0 + 1\<rparr>)"
          using b0(2,3) by (simp_all add: sized_def kept_def)
        with res b0(1) show ?thesis by auto
      next
        case live: False
        from write_ack_sized [OF b0(3), of WriteTo now "lui c + 31" bits]
        obtain c2 err where
          wp: "write_packet WriteTo now (ackHeader (wi c0) (lui c + 31) bits) []
                 (c0\<lparr>wi := wi c0 + 1\<rparr>) = Ret (c2, err)"
          and s2: "sized c2" and k2: "kept c0 c2"
          by blast
        from kept_trans [OF b0(2) k2] have kb: "kept b0 c2" .
        show ?thesis
        proof (cases err)
          case (Some e)
          with full w bits live wp
          have "writeAcksIfNecessary WriteTo now c wakes =
              Ret (c2, Some (Errorf ''failed to write ack packet'' e))"
            by (subst writeAcksIfNecessary_round [OF nz]) simp
          with s2 kb b0(1) show ?thesis by auto
        next
          case None
          with full w bits live wp
          have res: "writeAcksIfNecessary WriteTo now c wakes =
              writeAcksIfNecessary WriteTo now c2 rest"
            by (subst writeAcksIfNecessary_round [OF nz]) simp
          from full w bits live
          have ca: "createAckIfNecessary now c wakes =
              Ret (c0\<lparr>wi := wi c0 + 1\<rparr>, ackHeader (wi c0) (lui c + 31) bits, True, rest)"
            by (simp add: createAckIfNecessary_eq [OF nz])
          have nn: "\<not> \<not> True" by simp
          from wp None
          have wp': "write_packet WriteTo now (ackHeader (wi c0) (lui c + 31) bits) []
                 (c0\<lparr>wi := wi c0 + 1\<rparr>) = Ret (c2, None)" by simp
          note IH = "1.IH" [OF ca refl refl refl nn wp' refl refl s2 shapes']
          show ?thesis
          proof (cases "writeAcksIfNecessary WriteTo now c2 rest")
            case Panic
            with IH show ?thesis by simp
          next
            case (Parked p)
            with IH have p: "sized p" "shut p" "kept (last (c2 # rest)) p" by simp_all
            have "kept (last (c # wakes)) p"
            proof (cases "rest = []")
              case True
              with p(3) kb have "kept b0 p" by (simp add: kept_trans)
              with True b0(4) show ?thesis by simp
            next
              case False
              with p(3) b0(4) show ?thesis by simp
            qed
            with res Parked p show ?thesis by simp
          next
            case (Ret r')
            obtain c' e where r': "r' = (c', e)" by (cases r')
            with Ret IH obtain b where b: "sized c'" "b \<in> set (c2 # rest)" "kept b c'" by auto
            have "\<exists>b\<in>set (c # wakes). kept b c'"
            proof (cases "b = c2")
              case True
              with b(3) kb have "kept b0 c'" by (simp add: kept_trans)
              with b0(1) show ?thesis by blast
            next
              case False
              with b(2) sub have "b \<in> set (c # wakes)" by auto
              with b(3) show ?thesis by blast
            qed
            with res Ret r' b(1) show ?thesis by simp
          qed
        qed
      qed
    qed
  qed
qed

text \<open>
  C4. Standalone acks, as \<^verbatim>\<open>Read\<close> writes them through \<^verbatim>\<open>writeAcksIfNecessary\<close> (which it
  calls for every packet that is unordered or not a duplicate). While the 32 slots from
  \<open>lui\<close> on do not all record their sequence, the loop returns at once and writes nothing.
  When they do, one round moves \<open>lui\<close> on by 32 and sets the timestamp, and then comes to
  the writer gate. If the gate is shut it waits there, on the state it has just written:
  it stays parked on that state if it is never woken, and goes on from the state it is
  woken on otherwise. On the first state \<open>c0\<close> on which the gate is open it takes the
  sequence \<open>wi\<close> (\<open>wi\<close> moves on by one). If \<open>c0\<close> is closed the loop returns nil and nothing
  is written. If not, one ack packet is written: it carries that sequence, \<open>ack = lui + 31\<close>
  for the \<open>lui\<close> the round started from, the ack bits of \<open>c0\<close> (all ones when there was no
  wait) and \<^verbatim>\<open>Empty\<close>, and it goes to the transport. The packet is not \<^verbatim>\<open>Unordered\<close>, so
  \<^verbatim>\<open>write\<close> hands it to \<^verbatim>\<open>trackWrite\<close>: send slot \<open>wi mod W_s\<close> records the sequence and
  retains the buffer, not acked. The loop then goes round again from the new state, with
  the wakes that are left, or returns the error of the transmission.
\<close>

theorem standalone_ack:
  assumes "sized c" and "\<forall>w\<in>set wakes. sized w"
  shows "(\<not> windowFull c \<longrightarrow> writeAcksIfNecessary WriteTo now c wakes = Ret (c, None)) \<and>
    (windowFull c \<longrightarrow>
       (case waitUntilReaderAvailable (c\<lparr>lui := lui c + 32, ls := now\<rparr>) wakes of
          Panic \<Rightarrow> False
        | Parked p \<Rightarrow> writeAcksIfNecessary WriteTo now c wakes = Parked p
        | Ret (c0, rest) \<Rightarrow>
            if die c0
            then writeAcksIfNecessary WriteTo now c wakes = Ret (c0\<lparr>wi := wi c0 + 1\<rparr>, None)
            else
              (\<exists>ackBits c2 err.
                 prepareAckBits c0 (lui c + 31) = Ret ackBits \<and>
                 write_packet WriteTo now (ackHeader (wi c0) (lui c + 31) ackBits) []
                   (c0\<lparr>wi := wi c0 + 1\<rparr>) = Ret (c2, err) \<and>
                 conn c2 = conn c0 @ [Buffer (ackHeader (wi c0) (lui c + 31) ackBits) []] \<and>
                 lui c2 = lui c0 \<and> wi c2 = wi c0 + 1 \<and>
                 wq c2 ! slot (wi c0) (wq c0) = ucast (wi c0) \<and>
                 wqe c2 ! slot (wi c0) (wq c0) =
                   \<lparr>buf = Some (Buffer (ackHeader (wi c0) (lui c + 31) ackBits) []),
                    acked = False, written = now, resent = 0\<rparr> \<and>
                 writeAcksIfNecessary WriteTo now c wakes =
                   (case err of
                      None \<Rightarrow> writeAcksIfNecessary WriteTo now c2 rest
                    | Some e \<Rightarrow> Ret (c2, Some (Errorf ''failed to write ack packet'' e)))))) \<and>
    (windowFull c \<and> \<not> shut c \<longrightarrow>
       waitUntilReaderAvailable (c\<lparr>lui := lui c + 32, ls := now\<rparr>) wakes =
         Ret (c\<lparr>lui := lui c + 32, ls := now\<rparr>, wakes) \<and>
       prepareAckBits (c\<lparr>lui := lui c + 32, ls := now\<rparr>) (lui c + 31) = Ret 0xFFFFFFFF) \<and>
    (windowFull c \<and> shut c \<longrightarrow>
       writeAcksIfNecessary WriteTo now c [] = Parked (c\<lparr>lui := lui c + 32, ls := now\<rparr>) \<and>
       (\<forall>w ws. waitUntilReaderAvailable (c\<lparr>lui := lui c + 32, ls := now\<rparr>) (w # ws) =
                waitUntilReaderAvailable w ws))"
proof -
  from assms(1) have nz: "ring (rq c) \<noteq> 0" by (simp add: sized_def)
  let ?c1 = "c\<lparr>lui := lui c + 32, ls := now\<rparr>"
  have s1: "sized ?c1" using assms(1) by (simp add: sized_def)
  have idle: "writeAcksIfNecessary WriteTo now c wakes = Ret (c, None)" if "\<not> windowFull c"
    using that by (subst writeAcksIfNecessary_round [OF nz]) simp
  have round: "case waitUntilReaderAvailable ?c1 wakes of
          Panic \<Rightarrow> False
        | Parked p \<Rightarrow> writeAcksIfNecessary WriteTo now c wakes = Parked p
        | Ret (c0, rest) \<Rightarrow>
            if die c0
            then writeAcksIfNecessary WriteTo now c wakes = Ret (c0\<lparr>wi := wi c0 + 1\<rparr>, None)
            else
              (\<exists>ackBits c2 err.
                 prepareAckBits c0 (lui c + 31) = Ret ackBits \<and>
                 write_packet WriteTo now (ackHeader (wi c0) (lui c + 31) ackBits) []
                   (c0\<lparr>wi := wi c0 + 1\<rparr>) = Ret (c2, err) \<and>
                 conn c2 = conn c0 @ [Buffer (ackHeader (wi c0) (lui c + 31) ackBits) []] \<and>
                 lui c2 = lui c0 \<and> wi c2 = wi c0 + 1 \<and>
                 wq c2 ! slot (wi c0) (wq c0) = ucast (wi c0) \<and>
                 wqe c2 ! slot (wi c0) (wq c0) =
                   \<lparr>buf = Some (Buffer (ackHeader (wi c0) (lui c + 31) ackBits) []),
                    acked = False, written = now, resent = 0\<rparr> \<and>
                 writeAcksIfNecessary WriteTo now c wakes =
                   (case err of
                      None \<Rightarrow> writeAcksIfNecessary WriteTo now c2 rest
                    | Some e \<Rightarrow> Ret (c2, Some (Errorf ''failed to write ack packet'' e))))"
    if full: "windowFull c"
  proof (cases "waitUntilReaderAvailable ?c1 wakes")
    case Panic
    then show ?thesis by (simp add: waitUntilReaderAvailable_not_Panic)
  next
    case (Parked p)
    with full show ?thesis by (subst writeAcksIfNecessary_round [OF nz]) simp
  next
    case (Ret r)
    obtain c0 rest where r: "r = (c0, rest)" by (cases r)
    with Ret have w: "waitUntilReaderAvailable ?c1 wakes = Ret (c0, rest)" by simp
    then obtain pre where "?c1 # wakes = pre @ c0 # rest"
      by (auto simp: waitUntilReaderAvailable_Ret)
    then have "c0 \<in> set (?c1 # wakes)" by simp
    with s1 assms(2) have s0: "sized c0" by auto
    then have "ring (rq c0) \<noteq> 0" by (simp add: sized_def)
    from prepareAckBits_returns [OF this]
    obtain bits where bits: "prepareAckBits c0 (lui c + 31) = Ret bits" by blast
    show ?thesis
    proof (cases "die c0")
      case True
      with full w bits
      have "writeAcksIfNecessary WriteTo now c wakes = Ret (c0\<lparr>wi := wi c0 + 1\<rparr>, None)"
        by (subst writeAcksIfNecessary_round [OF nz]) simp
      with w True show ?thesis by simp
    next
      case live: False
      let ?h = "ackHeader (wi c0) (lui c + 31) bits"
      from write_ack_sized [OF s0, of WriteTo now "lui c + 31" bits]
      obtain c2 err where
        wp: "write_packet WriteTo now ?h [] (c0\<lparr>wi := wi c0 + 1\<rparr>) = Ret (c2, err)"
        and props: "conn c2 = conn c0 @ [Buffer ?h []]" "lui c2 = lui c0" "wi c2 = wi c0 + 1"
          "wq c2 ! slot (wi c0) (wq c0) = ucast (wi c0)"
          "wqe c2 ! slot (wi c0) (wq c0) =
             \<lparr>buf = Some (Buffer ?h []), acked = False, written = now, resent = 0\<rparr>"
        by blast
      have "writeAcksIfNecessary WriteTo now c wakes =
          (case err of
             None \<Rightarrow> writeAcksIfNecessary WriteTo now c2 rest
           | Some e \<Rightarrow> Ret (c2, Some (Errorf ''failed to write ack packet'' e)))"
        using full w bits live wp
        by (subst writeAcksIfNecessary_round [OF nz]) (simp split: option.splits)
      with bits wp props have "\<exists>ackBits c2 err.
                 prepareAckBits c0 (lui c + 31) = Ret ackBits \<and>
                 write_packet WriteTo now (ackHeader (wi c0) (lui c + 31) ackBits) []
                   (c0\<lparr>wi := wi c0 + 1\<rparr>) = Ret (c2, err) \<and>
                 conn c2 = conn c0 @ [Buffer (ackHeader (wi c0) (lui c + 31) ackBits) []] \<and>
                 lui c2 = lui c0 \<and> wi c2 = wi c0 + 1 \<and>
                 wq c2 ! slot (wi c0) (wq c0) = ucast (wi c0) \<and>
                 wqe c2 ! slot (wi c0) (wq c0) =
                   \<lparr>buf = Some (Buffer (ackHeader (wi c0) (lui c + 31) ackBits) []),
                    acked = False, written = now, resent = 0\<rparr> \<and>
                 writeAcksIfNecessary WriteTo now c wakes =
                   (case err of
                      None \<Rightarrow> writeAcksIfNecessary WriteTo now c2 rest
                    | Some e \<Rightarrow> Ret (c2, Some (Errorf ''failed to write ack packet'' e)))"
        by blast
      with w live show ?thesis by simp
    qed
  qed
  have passes: "waitUntilReaderAvailable ?c1 wakes = Ret (?c1, wakes) \<and>
       prepareAckBits ?c1 (lui c + 31) = Ret 0xFFFFFFFF"
    if "windowFull c" "\<not> shut c"
    using createAckIfNecessary_open [OF nz that] by simp
  have waits: "writeAcksIfNecessary WriteTo now c [] = Parked ?c1 \<and>
       (\<forall>w ws. waitUntilReaderAvailable ?c1 (w # ws) = waitUntilReaderAvailable w ws)"
    if "windowFull c" "shut c"
  proof -
    from that(2) have sh: "shut ?c1" by (simp add: shut_def)
    then have "waitUntilReaderAvailable ?c1 [] = Parked ?c1"
      by (rule waitUntilReaderAvailable_shut)
    with that(1) have "writeAcksIfNecessary WriteTo now c [] = Parked ?c1"
      by (subst writeAcksIfNecessary_round [OF nz]) simp
    with sh show ?thesis by (simp add: waitUntilReaderAvailable_shut)
  qed
  from idle round passes waits show ?thesis by blast
qed

lemma write_packet_delivers: "write_packet delivers now h bs c = Ret (c2, err) \<Longrightarrow> err = None"
  by (auto simp: write_packet_def Let_def transmit_def andThen_Ret delivers_def
      split: if_splits)

theorem standalone_ack_witness:
  "sized window32 \<and> windowFull window32 \<and> \<not> shut window32 \<and>
   (\<exists>c2. write_packet delivers 9 (ackHeader (wi window32) (lui window32 + 31) 0xFFFFFFFF) []
           (window32\<lparr>lui := lui window32 + 32, ls := 9, wi := wi window32 + 1\<rparr>) = Ret (c2, None) \<and>
      conn c2 = conn window32 @
        [Buffer (ackHeader (wi window32) (lui window32 + 31) 0xFFFFFFFF) []] \<and>
      lui c2 = lui window32 + 32 \<and> wi c2 = wi window32 + 1 \<and>
      wq c2 ! slot (wi window32) (wq window32) = ucast (wi window32) \<and>
      wqe c2 ! slot (wi window32) (wq window32) =
        \<lparr>buf = Some (Buffer (ackHeader (wi window32) (lui window32 + 31) 0xFFFFFFFF) []),
         acked = False, written = 9, resent = 0\<rparr> \<and>
      writeAcksIfNecessary delivers 9 window32 [] = writeAcksIfNecessary delivers 9 c2 []) \<and>
   sized due \<and> sized woken \<and> windowFull due \<and> shut due \<and>
   writeAcksIfNecessary delivers 9 due [] = Parked blocked \<and>
   lui blocked = lui due + 32 \<and>
   waitUntilReaderAvailable blocked [woken] = Ret (woken, []) \<and>
   (\<exists>c2. write_packet delivers 9 (ackHeader (wi woken) (lui due + 31) 0xFFFFFFFF) []
           (woken\<lparr>wi := wi woken + 1\<rparr>) = Ret (c2, None) \<and>
      conn c2 = conn woken @ [Buffer (ackHeader (wi woken) (lui due + 31) 0xFFFFFFFF) []] \<and>
      lui c2 = lui woken \<and> wi c2 = wi woken + 1 \<and>
      wq c2 ! slot (wi woken) (wq woken) = ucast (wi woken) \<and>
      wqe c2 ! slot (wi woken) (wq woken) =
        \<lparr>buf = Some (Buffer (ackHeader (wi woken) (lui due + 31) 0xFFFFFFFF) []),
         acked = False, written = 9, resent = 0\<rparr> \<and>
      writeAcksIfNecessary delivers 9 due [woken] = writeAcksIfNecessary delivers 9 c2 [])"
proof -
  have none: "\<forall>w\<in>set []. sized w" by simp
  have shape: "sized window32" and gate: "\<not> shut window32" and live: "\<not> die window32"
    and shapeD: "sized due" and shapeW: "sized woken" and shutD: "shut due"
    and liveW: "\<not> die woken"
    and eq: "due\<lparr>lui := lui due + 32, ls := 9\<rparr> = blocked"
    and l: "lui blocked = lui due + 32"
    and wk: "waitUntilReaderAvailable blocked [woken] = Ret (woken, [])"
    and bitsW: "prepareAckBits woken (lui due + 31) = Ret 0xFFFFFFFF"
    by code_simp+
  from shape have nz: "ring (rq window32) \<noteq> 0" by (simp add: sized_def)
  have "createAckIfNecessary_loop (rq window32) (lui window32) 0 = Ret True" by code_simp
  with createAckIfNecessary_loop_windowFull [OF nz] have full: "windowFull window32" by simp
  from shapeD have nzD: "ring (rq due) \<noteq> 0" by (simp add: sized_def)
  have "createAckIfNecessary_loop (rq due) (lui due) 0 = Ret True" by code_simp
  with createAckIfNecessary_loop_windowFull [OF nzD] have fullD: "windowFull due" by simp
  let ?c1 = "window32\<lparr>lui := lui window32 + 32, ls := 9\<rparr>"
  note a = standalone_ack [OF shape none, where WriteTo = delivers and now = 9]
  from a full gate have pass: "waitUntilReaderAvailable ?c1 [] = Ret (?c1, [])"
    and bits: "prepareAckBits ?c1 (lui window32 + 31) = Ret 0xFFFFFFFF" by blast+
  from a full have "case waitUntilReaderAvailable ?c1 [] of
          Panic \<Rightarrow> False
        | Parked p \<Rightarrow> writeAcksIfNecessary delivers 9 window32 [] = Parked p
        | Ret (c0, rest) \<Rightarrow>
            if die c0
            then writeAcksIfNecessary delivers 9 window32 [] = Ret (c0\<lparr>wi := wi c0 + 1\<rparr>, None)
            else
              (\<exists>ackBits c2 err.
                 prepareAckBits c0 (lui window32 + 31) = Ret ackBits \<and>
                 write_packet delivers 9 (ackHeader (wi c0) (lui window32 + 31) ackBits) []
                   (c0\<lparr>wi := wi c0 + 1\<rparr>) = Ret (c2, err) \<and>
                 conn c2 = conn c0 @ [Buffer (ackHeader (wi c0) (lui window32 + 31) ackBits) []] \<and>
                 lui c2 = lui c0 \<and> wi c2 = wi c0 + 1 \<and>
                 wq c2 ! slot (wi c0) (wq c0) = ucast (wi c0) \<and>
                 wqe c2 ! slot (wi c0) (wq c0) =
                   \<lparr>buf = Some (Buffer (ackHeader (wi c0) (lui window32 + 31) ackBits) []),
                    acked = False, written = 9, resent = 0\<rparr> \<and>
                 writeAcksIfNecessary delivers 9 window32 [] =
                   (case err of
                      None \<Rightarrow> writeAcksIfNecessary delivers 9 c2 rest
                    | Some e \<Rightarrow> Ret (c2, Some (Errorf ''failed to write ack packet'' e))))"
    by blast
  with pass bits live obtain c2 err where
    w: "write_packet delivers 9 (ackHeader (wi window32) (lui window32 + 31) 0xFFFFFFFF) []
           (window32\<lparr>lui := lui window32 + 32, ls := 9, wi := wi window32 + 1\<rparr>) = Ret (c2, err)"
    and props: "conn c2 = conn window32 @
        [Buffer (ackHeader (wi window32) (lui window32 + 31) 0xFFFFFFFF) []]"
      "lui c2 = lui window32 + 32" "wi c2 = wi window32 + 1"
      "wq c2 ! slot (wi window32) (wq window32) = ucast (wi window32)"
      "wqe c2 ! slot (wi window32) (wq window32) =
        \<lparr>buf = Some (Buffer (ackHeader (wi window32) (lui window32 + 31) 0xFFFFFFFF) []),
         acked = False, written = 9, resent = 0\<rparr>"
    and loop: "writeAcksIfNecessary delivers 9 window32 [] =
           (case err of
              None \<Rightarrow> writeAcksIfNecessary delivers 9 c2 []
            | Some e \<Rightarrow> Ret (c2, Some (Errorf ''failed to write ack packet'' e)))"
    by auto
  from write_packet_delivers [OF w] have err: "err = None" .
  have first: "\<exists>c2. write_packet delivers 9
           (ackHeader (wi window32) (lui window32 + 31) 0xFFFFFFFF) []
           (window32\<lparr>lui := lui window32 + 32, ls := 9, wi := wi window32 + 1\<rparr>) = Ret (c2, None) \<and>
      conn c2 = conn window32 @
        [Buffer (ackHeader (wi window32) (lui window32 + 31) 0xFFFFFFFF) []] \<and>
      lui c2 = lui window32 + 32 \<and> wi c2 = wi window32 + 1 \<and>
      wq c2 ! slot (wi window32) (wq window32) = ucast (wi window32) \<and>
      wqe c2 ! slot (wi window32) (wq window32) =
        \<lparr>buf = Some (Buffer (ackHeader (wi window32) (lui window32 + 31) 0xFFFFFFFF) []),
         acked = False, written = 9, resent = 0\<rparr> \<and>
      writeAcksIfNecessary delivers 9 window32 [] = writeAcksIfNecessary delivers 9 c2 []"
    using w props loop err by auto
  from standalone_ack [OF shapeD none, where WriteTo = delivers and now = 9] fullD shutD
  have "writeAcksIfNecessary delivers 9 due [] = Parked (due\<lparr>lui := lui due + 32, ls := 9\<rparr>)"
    by blast
  with eq have parks: "writeAcksIfNecessary delivers 9 due [] = Parked blocked" by simp
  from shapeW have one: "\<forall>w\<in>set [woken]. sized w" by simp
  from standalone_ack [OF shapeD one, where WriteTo = delivers and now = 9] fullD
  have "case waitUntilReaderAvailable (due\<lparr>lui := lui due + 32, ls := 9\<rparr>) [woken] of
          Panic \<Rightarrow> False
        | Parked p \<Rightarrow> writeAcksIfNecessary delivers 9 due [woken] = Parked p
        | Ret (c0, rest) \<Rightarrow>
            if die c0
            then writeAcksIfNecessary delivers 9 due [woken] = Ret (c0\<lparr>wi := wi c0 + 1\<rparr>, None)
            else
              (\<exists>ackBits c2 err.
                 prepareAckBits c0 (lui due + 31) = Ret ackBits \<and>
                 write_packet delivers 9 (ackHeader (wi c0) (lui due + 31) ackBits) []
                   (c0\<lparr>wi := wi c0 + 1\<rparr>) = Ret (c2, err) \<and>
                 conn c2 = conn c0 @ [Buffer (ackHeader (wi c0) (lui due + 31) ackBits) []] \<and>
                 lui c2 = lui c0 \<and> wi c2 = wi c0 + 1 \<and>
                 wq c2 ! slot (wi c0) (wq c0) = ucast (wi c0) \<and>
                 wqe c2 ! slot (wi c0) (wq c0) =
                   \<lparr>buf = Some (Buffer (ackHeader (wi c0) (lui due + 31) ackBits) []),
                    acked = False, written = 9, resent = 0\<rparr> \<and>
                 writeAcksIfNecessary delivers 9 due [woken] =
                   (case err of
                      None \<Rightarrow> writeAcksIfNecessary delivers 9 c2 rest
                    | Some e \<Rightarrow> Ret (c2, Some (Errorf ''failed to write ack packet'' e))))"
    by blast
  then obtain c2' err' where
    w': "write_packet delivers 9 (ackHeader (wi woken) (lui due + 31) 0xFFFFFFFF) []
           (woken\<lparr>wi := wi woken + 1\<rparr>) = Ret (c2', err')"
    and props': "conn c2' = conn woken @
        [Buffer (ackHeader (wi woken) (lui due + 31) 0xFFFFFFFF) []]"
      "lui c2' = lui woken" "wi c2' = wi woken + 1"
      "wq c2' ! slot (wi woken) (wq woken) = ucast (wi woken)"
      "wqe c2' ! slot (wi woken) (wq woken) =
        \<lparr>buf = Some (Buffer (ackHeader (wi woken) (lui due + 31) 0xFFFFFFFF) []),
         acked = False, written = 9, resent = 0\<rparr>"
    and loop': "writeAcksIfNecessary delivers 9 due [woken] =
           (case err' of
              None \<Rightarrow> writeAcksIfNecessary delivers 9 c2' []
            | Some e \<Rightarrow> Ret (c2', Some (Errorf ''failed to write ack packet'' e)))"
    unfolding eq wk using liveW bitsW by auto
  from write_packet_delivers [OF w'] have err': "err' = None" .
  have second: "\<exists>c2. write_packet delivers 9 (ackHeader (wi woken) (lui due + 31) 0xFFFFFFFF) []
           (woken\<lparr>wi := wi woken + 1\<rparr>) = Ret (c2, None) \<and>
      conn c2 = conn woken @ [Buffer (ackHeader (wi woken) (lui due + 31) 0xFFFFFFFF) []] \<and>
      lui c2 = lui woken \<and> wi c2 = wi woken + 1 \<and>
      wq c2 ! slot (wi woken) (wq woken) = ucast (wi woken) \<and>
      wqe c2 ! slot (wi woken) (wq woken) =
        \<lparr>buf = Some (Buffer (ackHeader (wi woken) (lui due + 31) 0xFFFFFFFF) []),
         acked = False, written = 9, resent = 0\<rparr> \<and>
      writeAcksIfNecessary delivers 9 due [woken] = writeAcksIfNecessary delivers 9 c2 []"
    using w' props' loop' err' by auto
  from shape full gate first shapeD shapeW fullD shutD parks l wk second show ?thesis
    by (intro conjI)
qed

text \<open>\<^verbatim>\<open>Read\<close> of packet 31 completes the window 0 to 31: the ack goes out with sequence 0,
  and send slot 0, empty before, holds its buffer afterwards.\<close>

theorem standalone_ack_counterexample:
  "buf (wqe window31 ! 0) = None \<and>
   Read delivers 9 (zeroHeader\<lparr>Sequence := 31, ACK := 65535\<rparr>) [7] window31 [] =
     Ret (window31\<lparr>lui := 32, ls := 9, wi := 1, ri := 32, rq := map of_nat [0..<32],
            wq := (wq window31)[0 := 0],
            wqe := (wqe window31)[0 :=
              \<lparr>buf = Some (Buffer \<lparr>Sequence = 0, ACK = 31, ACKBits = 0xFFFFFFFF,
                                     Unordered = False, Empty = True\<rparr> []),
               acked = False, written = 9, resent = 0\<rparr>],
            conn := [Buffer \<lparr>Sequence = 0, ACK = 31, ACKBits = 0xFFFFFFFF, Unordered = False,
                             Empty = True\<rparr> []],
            ph := Some [(31, [7])]\<rparr>, None)"
  by code_simp

section \<open>Read\<close>

lemma trackUnacked_loop_returns:
  "ring q \<noteq> 0 \<Longrightarrow> length q \<le> length es \<Longrightarrow> \<exists>u'. trackUnacked_loop q es u = Ret u'"
proof (induction q es u rule: trackUnacked_loop.induct)
  case (1 q es u)
  from slot_less [OF "1.prems"(1), of u] "1.prems"(2) have "\<not> length es \<le> slot u q" by simp
  with 1 show ?case by (subst trackUnacked_loop.simps) (auto simp: Let_def)
qed

lemma trackUnacked_sized:
  "sized c \<Longrightarrow> \<exists>u. trackUnacked c = Ret (c\<lparr>oui := u\<rparr>)"
  using trackUnacked_loop_returns [of "wq c" "wqe c" "oui c"]
  by (auto simp: trackUnacked_def sized_def)

text \<open>Where \<^verbatim>\<open>Read\<close> calls the ack loop: on the state that \<^verbatim>\<open>readAckBits\<close>, \<^verbatim>\<open>trackRead\<close> (for
  a packet that is not \<^verbatim>\<open>Unordered\<close>, and only when the sequence is new) and \<^verbatim>\<open>trackUnacked\<close>
  have left.\<close>

lemma Read_writes_acks:
  assumes "readAckBits (ACK h) (ACKBits h) c = Ret c1"
    and "(if \<not> Unordered h then trackRead (Sequence h) c1 else Ret (c1, True)) = Ret (c2, True)"
    and "trackUnacked c2 = Ret c3"
  shows "Read WriteTo now h bytes c wakes =
    andThen (writeAcksIfNecessary WriteTo now c3 wakes) (\<lambda>(c4, err).
      case err of
        Some e \<Rightarrow> Ret (c4, Some (Errorf ''failed to write acks when necessary'' e))
      | None \<Rightarrow>
          if Empty h then Ret (c4, None)
          else
            (case ph c4 of
               None \<Rightarrow> Ret (c4, None)
             | Some calls \<Rightarrow> Ret (c4\<lparr>ph := Some (calls @ [(Sequence h, bytes)])\<rparr>, None)))"
  using assms by (simp add: Read_def)

text \<open>
  C7. A duplicate is a no-op beyond ack processing: for every inbound packet that is not
  \<^verbatim>\<open>Unordered\<close> and whose sequence \<open>s\<close> is recorded by receive slot \<open>s mod W_r\<close>, \<^verbatim>\<open>Read\<close> returns
  nil with the state \<^verbatim>\<open>readAckBits\<close> left: \<open>ri\<close> and every receive slot are unchanged, nothing
  is transmitted and the packet handler is not invoked. It never comes to the gate.
\<close>

theorem Read_duplicate:
  assumes "sized c" and "\<not> Unordered h"
    and "rq c ! slot (Sequence h) (rq c) = ucast (Sequence h)"
  shows "\<exists>c'. readAckBits (ACK h) (ACKBits h) c = Ret c' \<and>
    Read WriteTo now h bytes c wakes = Ret (c', None) \<and>
    ri c' = ri c \<and> rq c' = rq c \<and> ph c' = ph c \<and> conn c' = conn c"
proof -
  from readAckBits_sized [OF assms(1)]
  obtain c1 where run: "readAckBits (ACK h) (ACKBits h) c = Ret c1"
    and frame: "c1 = c\<lparr>pool := pool c1, wqe := wqe c1\<rparr>" and shape: "sized c1"
    by blast
  have same: "ri c1 = ri c" "rq c1 = rq c" "ph c1 = ph c" "conn c1 = conn c"
    by (subst frame, simp)+
  from shape have "ring (rq c1) \<noteq> 0" by (simp add: sized_def)
  with same(2) assms(3) have "trackRead (Sequence h) c1 = Ret (c1, False)"
    by (simp add: trackRead_def)
  with run assms(2) have "Read WriteTo now h bytes c wakes = Ret (c1, None)"
    by (simp add: Read_def)
  with run same show ?thesis by blast
qed

theorem Read_duplicate_witness:
  "sized received3 \<and>
   \<not> Unordered (zeroHeader\<lparr>Sequence := 1, ACK := 65535\<rparr>) \<and>
   rq received3 ! slot 1 (rq received3) = ucast (1 :: u16) \<and>
   Read delivers 9 (zeroHeader\<lparr>Sequence := 1, ACK := 65535\<rparr>) [7] received3 [] =
     Ret (received3, None)"
proof -
  have a: "sized received3" and b: "\<not> Unordered (zeroHeader\<lparr>Sequence := 1, ACK := 65535\<rparr>)"
    and d: "rq received3 ! slot 1 (rq received3) = ucast (1 :: u16)"
    and e: "readAckBits 65535 0 received3 = Ret received3"
    by code_simp+
  have s: "Sequence (zeroHeader\<lparr>Sequence := 1, ACK := 65535\<rparr>) = 1"
    "ACK (zeroHeader\<lparr>Sequence := 1, ACK := 65535\<rparr>) = 65535"
    "ACKBits (zeroHeader\<lparr>Sequence := 1, ACK := 65535\<rparr>) = 0"
    by (simp_all add: zeroHeader_def)
  from Read_duplicate [OF a b, where WriteTo = delivers and now = 9 and bytes = "[7]"
      and wakes = "[]"] d e s a b
  show ?thesis by auto
qed

text \<open>
  C10. Stale sequences re-enter the receive window. For every inbound packet that is not
  \<^verbatim>\<open>Unordered\<close>, whose sequence \<open>s\<close> is not recorded by slot \<open>s mod W_r\<close> and is older than the
  next expected one (\<open>GT (s + 1) ri\<close> is false), \<^verbatim>\<open>Read\<close> never panics. It leaves \<open>ri\<close> unchanged
  and stores \<open>s\<close> into slot \<open>s mod W_r\<close>, over whatever the slot recorded, before it writes
  the standalone acks that are due: \<open>mid\<close> is the state it has made by then. Writing the
  acks it may wait on the writer gate. If it stays parked, the gate is shut on the state
  it is parked on, and that state has the \<open>ri\<close>, the receive ring and the handler's calls of
  \<open>mid\<close> when it was never woken, and of the last state it was woken on otherwise. When it
  returns, the state it leaves has the \<open>ri\<close> and the receive ring of \<open>mid\<close> or of a state it
  was woken on, and that state's handler calls with one more, of \<open>s\<close> and the payload,
  exactly when no ack failed to be written, the packet is not \<^verbatim>\<open>Empty\<close> and a handler is
  installed. So when no state it is woken on differs from \<open>mid\<close> in these three (and when
  it is never woken), \<open>ri\<close> is the one \<^verbatim>\<open>Read\<close> was called with, slot \<open>s mod W_r\<close> records \<open>s\<close>,
  and the handler's calls are those \<^verbatim>\<open>Read\<close> was called with and that one call. When
  recording \<open>s\<close> does not complete the window at \<open>lui\<close>, \<^verbatim>\<open>Read\<close> returns nil.
\<close>

theorem Read_stale:
  assumes "sized c" and "\<forall>w\<in>set wakes. sized w" and "\<not> Unordered h"
    and "rq c ! slot (Sequence h) (rq c) \<noteq> ucast (Sequence h)"
    and "\<not> GT (Sequence h + 1) (ri c)"
  shows "(\<exists>mid.
            ri mid = ri c \<and>
            rq mid = (rq c)[slot (Sequence h) (rq c) := ucast (Sequence h)] \<and>
            ph mid = ph c \<and>
            (case Read WriteTo now h bytes c wakes of
               Panic \<Rightarrow> False
             | Parked p \<Rightarrow>
                 shut p \<and> ri p = ri (last (mid # wakes)) \<and> rq p = rq (last (mid # wakes)) \<and>
                 ph p = ph (last (mid # wakes))
             | Ret (c', err) \<Rightarrow>
                 (\<exists>b\<in>set (mid # wakes).
                    ri c' = ri b \<and> rq c' = rq b \<and>
                    ph c' = (if err = None \<and> \<not> Empty h
                             then map_option (\<lambda>calls. calls @ [(Sequence h, bytes)]) (ph b)
                             else ph b)))) \<and>
         ((\<forall>w\<in>set wakes.
             ri w = ri c \<and> rq w = (rq c)[slot (Sequence h) (rq c) := ucast (Sequence h)] \<and>
             ph w = ph c) \<longrightarrow>
          (case Read WriteTo now h bytes c wakes of
             Panic \<Rightarrow> False
           | Parked p \<Rightarrow>
               shut p \<and> ri p = ri c \<and>
               rq p = (rq c)[slot (Sequence h) (rq c) := ucast (Sequence h)] \<and> ph p = ph c
           | Ret (c', err) \<Rightarrow>
               ri c' = ri c \<and>
               rq c' = (rq c)[slot (Sequence h) (rq c) := ucast (Sequence h)] \<and>
               ph c' = (if err = None \<and> \<not> Empty h
                        then map_option (\<lambda>calls. calls @ [(Sequence h, bytes)]) (ph c)
                        else ph c))) \<and>
         (\<not> windowFull (c\<lparr>rq := (rq c)[slot (Sequence h) (rq c) := ucast (Sequence h)]\<rparr>) \<longrightarrow>
            (\<exists>c'. Read WriteTo now h bytes c wakes = Ret (c', None)))"
proof -
  let ?q = "(rq c)[slot (Sequence h) (rq c) := ucast (Sequence h)]"
  from readAckBits_sized [OF assms(1)]
  obtain c1 where run: "readAckBits (ACK h) (ACKBits h) c = Ret c1"
    and frame: "c1 = c\<lparr>pool := pool c1, wqe := wqe c1\<rparr>" and shape1: "sized c1"
    by blast
  have same1: "ri c1 = ri c" "rq c1 = rq c" "ph c1 = ph c" "lui c1 = lui c"
    by (subst frame, simp)+
  from shape1 have nz1: "ring (rq c1) \<noteq> 0" by (simp add: sized_def)
  let ?c2 = "c1\<lparr>rq := ?q\<rparr>"
  from nz1 same1 assms(4,5) have tr: "trackRead (Sequence h) c1 = Ret (?c2, True)"
    by (simp add: trackRead_def Let_def)
  have "length ?q = length (rq c1)" using same1(2) by simp
  with shape1 have shape2: "sized ?c2" by (simp add: sized_def ring_def)
  from trackUnacked_sized [OF shape2]
  obtain u where tu: "trackUnacked ?c2 = Ret (?c2\<lparr>oui := u\<rparr>)" by blast
  define mid where "mid = ?c2\<lparr>oui := u\<rparr>"
  from shape2 have shape3: "sized mid" by (simp add: sized_def mid_def)
  have same3: "ri mid = ri c" "rq mid = ?q" "ph mid = ph c" "lui mid = lui c"
    using same1 by (simp_all add: mid_def)
  have read: "Read WriteTo now h bytes c wakes =
      andThen (writeAcksIfNecessary WriteTo now mid wakes) (\<lambda>(c4, err).
        case err of
          Some e \<Rightarrow> Ret (c4, Some (Errorf ''failed to write acks when necessary'' e))
        | None \<Rightarrow>
            if Empty h then Ret (c4, None)
            else
              (case ph c4 of
                 None \<Rightarrow> Ret (c4, None)
               | Some calls \<Rightarrow> Ret (c4\<lparr>ph := Some (calls @ [(Sequence h, bytes)])\<rparr>, None)))"
    using run tr tu assms(3) unfolding mid_def by (simp add: Read_writes_acks)
  note acks = writeAcksIfNecessary_sized [OF shape3 assms(2), of WriteTo now]
  have first: "case Read WriteTo now h bytes c wakes of
               Panic \<Rightarrow> False
             | Parked p \<Rightarrow>
                 shut p \<and> ri p = ri (last (mid # wakes)) \<and> rq p = rq (last (mid # wakes)) \<and>
                 ph p = ph (last (mid # wakes))
             | Ret (c', err) \<Rightarrow>
                 (\<exists>b\<in>set (mid # wakes).
                    ri c' = ri b \<and> rq c' = rq b \<and>
                    ph c' = (if err = None \<and> \<not> Empty h
                             then map_option (\<lambda>calls. calls @ [(Sequence h, bytes)]) (ph b)
                             else ph b))"
  proof (cases "writeAcksIfNecessary WriteTo now mid wakes")
    case Panic
    with acks show ?thesis by simp
  next
    case (Parked p)
    with acks have "shut p" "kept (last (mid # wakes)) p" by simp_all
    with read Parked show ?thesis by (simp add: kept_def)
  next
    case (Ret r)
    obtain c4 err where r: "r = (c4, err)" by (cases r)
    with Ret have w4: "writeAcksIfNecessary WriteTo now mid wakes = Ret (c4, err)" by simp
    with acks obtain b where b: "b \<in> set (mid # wakes)" "kept b c4" by auto
    then have c4: "ri c4 = ri b" "rq c4 = rq b" "ph c4 = ph b" by (simp_all add: kept_def)
    show ?thesis
    proof (cases err)
      case (Some e)
      with read w4 c4 b(1) show ?thesis by auto
    next
      case None
      show ?thesis
      proof (cases "Empty h")
        case True
        with None read w4 c4 b(1) show ?thesis by auto
      next
        case False
        show ?thesis
        proof (cases "ph b")
          case None': None
          with None False read w4 c4 b(1) show ?thesis by auto
        next
          case (Some calls)
          with None False read w4 c4 b(1) show ?thesis by auto
        qed
      qed
    qed
  qed
  have second: "case Read WriteTo now h bytes c wakes of
             Panic \<Rightarrow> False
           | Parked p \<Rightarrow> shut p \<and> ri p = ri c \<and> rq p = ?q \<and> ph p = ph c
           | Ret (c', err) \<Rightarrow>
               ri c' = ri c \<and> rq c' = ?q \<and>
               ph c' = (if err = None \<and> \<not> Empty h
                        then map_option (\<lambda>calls. calls @ [(Sequence h, bytes)]) (ph c)
                        else ph c)"
    if still: "\<forall>w\<in>set wakes. ri w = ri c \<and> rq w = ?q \<and> ph w = ph c"
  proof -
    from still same3 have every: "\<forall>b\<in>set (mid # wakes). ri b = ri c \<and> rq b = ?q \<and> ph b = ph c"
      by simp
    have "last (mid # wakes) \<in> set (mid # wakes)" by (rule last_in_set) simp
    with every have final: "ri (last (mid # wakes)) = ri c" "rq (last (mid # wakes)) = ?q"
      "ph (last (mid # wakes)) = ph c" by blast+
    show ?thesis
    proof (cases "Read WriteTo now h bytes c wakes")
      case Panic
      with first show ?thesis by simp
    next
      case (Parked p)
      with first final show ?thesis by simp
    next
      case (Ret r)
      obtain c' err where "r = (c', err)" by (cases r)
      with Ret first every show ?thesis by auto
    qed
  qed
  have third: "\<exists>c'. Read WriteTo now h bytes c wakes = Ret (c', None)"
    if "\<not> windowFull (c\<lparr>rq := ?q\<rparr>)"
  proof -
    from that same3 have idle: "\<not> windowFull mid" by (simp add: windowFull_def)
    from shape3 have nz3: "ring (rq mid) \<noteq> 0" by (simp add: sized_def)
    have w4: "writeAcksIfNecessary WriteTo now mid wakes = Ret (mid, None)"
      by (subst writeAcksIfNecessary_round [OF nz3]) (simp only: idle not_False_eq_True if_True)
    show ?thesis
    proof (cases "Empty h")
      case True
      with read w4 show ?thesis by simp
    next
      case False
      with read w4 show ?thesis by (cases "ph mid") simp_all
    qed
  qed
  from same3(1,2,3) first have "\<exists>mid.
            ri mid = ri c \<and> rq mid = ?q \<and> ph mid = ph c \<and>
            (case Read WriteTo now h bytes c wakes of
               Panic \<Rightarrow> False
             | Parked p \<Rightarrow>
                 shut p \<and> ri p = ri (last (mid # wakes)) \<and> rq p = rq (last (mid # wakes)) \<and>
                 ph p = ph (last (mid # wakes))
             | Ret (c', err) \<Rightarrow>
                 (\<exists>b\<in>set (mid # wakes).
                    ri c' = ri b \<and> rq c' = rq b \<and>
                    ph c' = (if err = None \<and> \<not> Empty h
                             then map_option (\<lambda>calls. calls @ [(Sequence h, bytes)]) (ph b)
                             else ph b)))"
    by blast
  with second third show ?thesis by blast
qed

theorem Read_stale_witness:
  "sized hole1 \<and> \<not> Unordered stale1 \<and>
   rq hole1 ! slot (Sequence stale1) (rq hole1) \<noteq> ucast (Sequence stale1) \<and>
   \<not> GT (Sequence stale1 + 1) (ri hole1) \<and>
   Read delivers 9 stale1 [11] hole1 [] =
     Ret (hole1\<lparr>rq := [0, 1, 2] @ replicate 29 0xFFFFFFFF, ph := Some [(1, [11])]\<rparr>, None) \<and>
   ri (hole1\<lparr>rq := [0, 1, 2] @ replicate 29 0xFFFFFFFF, ph := Some [(1, [11])]\<rparr>) = ri hole1 \<and>
   rq (hole1\<lparr>rq := [0, 1, 2] @ replicate 29 0xFFFFFFFF, ph := Some [(1, [11])]\<rparr>) =
     (rq hole1)[slot (Sequence stale1) (rq hole1) := ucast (Sequence stale1)] \<and>
   sized busy \<and>
   rq busy ! slot (Sequence stale1) (rq busy) \<noteq> ucast (Sequence stale1) \<and>
   \<not> GT (Sequence stale1 + 1) (ri busy) \<and>
   Read delivers 9 stale1 [11] busy [] = Parked blocked \<and>
   shut blocked \<and> lui blocked = lui busy + 32 \<and> ri blocked = ri busy \<and>
   rq blocked = (rq busy)[slot (Sequence stale1) (rq busy) := ucast (Sequence stale1)] \<and>
   ph blocked = ph busy \<and>
   sized (Close blocked) \<and>
   Read delivers 9 stale1 [11] busy [Close blocked] =
     Ret ((Close blocked)\<lparr>wi := 33, ph := Some [(1, [11])]\<rparr>, None) \<and>
   ri ((Close blocked)\<lparr>wi := 33, ph := Some [(1, [11])]\<rparr>) = ri busy \<and>
   rq ((Close blocked)\<lparr>wi := 33, ph := Some [(1, [11])]\<rparr>) =
     (rq busy)[slot (Sequence stale1) (rq busy) := ucast (Sequence stale1)] \<and>
   sized woken \<and>
   Read delivers 9 stale1 [11] busy [woken] =
     Ret (woken\<lparr>wi := 33, wq := (wq woken)[0 := 32],
            wqe := (wqe woken)[0 :=
              \<lparr>buf = Some (Buffer (ackHeader 32 31 0xFFFFFFFF) []), acked = False,
               written = 9, resent = 0\<rparr>],
            conn := [Buffer (ackHeader 32 31 0xFFFFFFFF) []],
            ph := Some [(0, []), (1, [11])]\<rparr>, None)"
proof -
  have none: "\<forall>w\<in>set []. sized w" by simp
  have a: "sized hole1" and b: "\<not> Unordered stale1"
    and c: "rq hole1 ! slot (Sequence stale1) (rq hole1) \<noteq> ucast (Sequence stale1)"
    and d: "\<not> GT (Sequence stale1 + 1) (ri hole1)"
    and e: "Read delivers 9 stale1 [11] hole1 [] =
     Ret (hole1\<lparr>rq := [0, 1, 2] @ replicate 29 0xFFFFFFFF, ph := Some [(1, [11])]\<rparr>, None)"
    by code_simp+
  have a': "sized busy"
    and c': "rq busy ! slot (Sequence stale1) (rq busy) \<noteq> ucast (Sequence stale1)"
    and d': "\<not> GT (Sequence stale1 + 1) (ri busy)"
    and e': "Read delivers 9 stale1 [11] busy [] = Parked blocked"
    and l: "lui blocked = lui busy + 32"
    by code_simp+
  have k: "sized (Close blocked)"
    and k1: "ri (Close blocked) = ri busy"
    and k2: "rq (Close blocked) =
      (rq busy)[slot (Sequence stale1) (rq busy) := ucast (Sequence stale1)]"
    and k3: "ph (Close blocked) = ph busy"
    and f: "Read delivers 9 stale1 [11] busy [Close blocked] =
     Ret ((Close blocked)\<lparr>wi := 33, ph := Some [(1, [11])]\<rparr>, None)"
    by code_simp+
  have w: "sized woken"
    and g: "Read delivers 9 stale1 [11] busy [woken] =
     Ret (woken\<lparr>wi := 33, wq := (wq woken)[0 := 32],
            wqe := (wqe woken)[0 :=
              \<lparr>buf = Some (Buffer (ackHeader 32 31 0xFFFFFFFF) []), acked = False,
               written = 9, resent = 0\<rparr>],
            conn := [Buffer (ackHeader 32 31 0xFFFFFFFF) []],
            ph := Some [(0, []), (1, [11])]\<rparr>, None)"
    by code_simp+
  from Read_stale [where WriteTo = delivers and now = 9 and bytes = "[11]", OF a none b c d] e
  have h1: "ri (hole1\<lparr>rq := [0, 1, 2] @ replicate 29 0xFFFFFFFF, ph := Some [(1, [11])]\<rparr>) =
      ri hole1"
    and h2: "rq (hole1\<lparr>rq := [0, 1, 2] @ replicate 29 0xFFFFFFFF, ph := Some [(1, [11])]\<rparr>) =
     (rq hole1)[slot (Sequence stale1) (rq hole1) := ucast (Sequence stale1)]"
    by simp_all
  from Read_stale [where WriteTo = delivers and now = 9 and bytes = "[11]", OF a' none b c' d'] e'
  have p: "shut blocked" "ri blocked = ri busy"
    "rq blocked = (rq busy)[slot (Sequence stale1) (rq busy) := ucast (Sequence stale1)]"
    "ph blocked = ph busy"
    by simp_all
  from k have one: "\<forall>w\<in>set [Close blocked]. sized w" by simp
  from Read_stale [where WriteTo = delivers and now = 9 and bytes = "[11]", OF a' one b c' d']
    k1 k2 k3 f
  have q: "ri ((Close blocked)\<lparr>wi := 33, ph := Some [(1, [11])]\<rparr>) = ri busy"
    "rq ((Close blocked)\<lparr>wi := 33, ph := Some [(1, [11])]\<rparr>) =
     (rq busy)[slot (Sequence stale1) (rq busy) := ucast (Sequence stale1)]"
    by simp_all
  from a b c d e h1 h2 a' c' d' e' p l k f q w g show ?thesis by (intro conjI)
qed

text \<open>The same late packet as a standalone ack of the peer (\<^verbatim>\<open>Empty\<close>): the sequence is
  recorded and the handler is not invoked.\<close>

theorem Read_stale_counterexample:
  "\<not> Unordered (stale1\<lparr>Empty := True\<rparr>) \<and>
   rq hole1 ! slot (Sequence (stale1\<lparr>Empty := True\<rparr>)) (rq hole1) \<noteq>
     ucast (Sequence (stale1\<lparr>Empty := True\<rparr>)) \<and>
   \<not> GT (Sequence (stale1\<lparr>Empty := True\<rparr>) + 1) (ri hole1) \<and>
   ph hole1 = Some [] \<and>
   Read delivers 9 (stale1\<lparr>Empty := True\<rparr>) [] hole1 [] =
     Ret (hole1\<lparr>rq := [0, 1, 2] @ replicate 29 0xFFFFFFFF\<rparr>, None)"
  by code_simp

section \<open>The closed flag is never cleared\<close>

text \<open>No write and no \<^verbatim>\<open>Read\<close> changes \<^verbatim>\<open>die\<close>: the flag a call leaves is the one of the state
  it was called on or of a state it was woken on.\<close>

lemma trackWrite_die: "trackWrite now idx b c = Ret c' \<Longrightarrow> die c' = die c"
  by (auto simp: trackWrite_def Let_def clearWrites_def split: if_splits)

lemma write_packet_die: "write_packet WriteTo now h bs c = Ret (c', e) \<Longrightarrow> die c' = die c"
  by (auto simp: write_packet_def Let_def andThen_Ret transmit_def dest!: trackWrite_die
      split: if_splits option.splits)

lemma writePacket_die:
  assumes "writePacket WriteTo now reliable bs c wakes = Ret (c', e)"
  shows "\<exists>b\<in>set (c # wakes). die c' = die b"
proof -
  from assms obtain c1 idx ack ackBits ok where
    first: "(if reliable then waitForNextWriteDetails c wakes
        else andThen (nextAckDetails c) (\<lambda>(ack, ackBits). Ret (c, 0, ack, ackBits, True))) =
        Ret (c1, idx, ack, ackBits, ok)"
    and rest: "(if \<not> ok then Ret (c1, Some EOF)
          else andThen (trackAcked now ack c1) (\<lambda>c2.
            write_packet WriteTo now
              \<lparr>Sequence = idx, ACK = ack, ACKBits = ackBits, Unordered = \<not> reliable,
               Empty = False\<rparr> bs c2)) = Ret (c', e)"
    unfolding writePacket_def andThen_Ret by fastforce
  have d1: "\<exists>b\<in>set (c # wakes). die c1 = die b"
  proof (cases reliable)
    case True
    with first obtain c0 rest where w: "waitUntilReaderAvailable c wakes = Ret (c0, rest)"
      and c1: "c1 = c0\<lparr>wi := wi c0 + 1\<rparr>"
      by (auto simp: waitForNextWriteDetails_def nextWriteIndex_def Let_def andThen_Ret)
    from w obtain pre where "c # wakes = pre @ c0 # rest"
      by (auto simp: waitUntilReaderAvailable_Ret)
    then have "c0 \<in> set (c # wakes)" by simp
    with c1 show ?thesis by auto
  next
    case False
    with first have "c1 = c" by (auto simp: andThen_Ret)
    then show ?thesis by simp
  qed
  have "die c' = die c1"
  proof (cases ok)
    case False
    with rest show ?thesis by simp
  next
    case True
    with rest obtain c2 where ta: "trackAcked now ack c1 = Ret c2"
      and wp: "write_packet WriteTo now
              \<lparr>Sequence = idx, ACK = ack, ACKBits = ackBits, Unordered = \<not> reliable,
               Empty = False\<rparr> bs c2 = Ret (c', e)"
      by (auto simp: andThen_Ret)
    from ta have "die c2 = die c1" by (auto simp: trackAcked_def andThen_Ret)
    with write_packet_die [OF wp] show ?thesis by simp
  qed
  with d1 show ?thesis by simp
qed

lemma Read_die:
  assumes "sized c" and "\<forall>w\<in>set wakes. sized w"
    and "Read WriteTo now h bs c wakes = Ret (c', e)"
  shows "\<exists>b\<in>set (c # wakes). die c' = die b"
proof -
  from readAckBits_sized [OF assms(1)]
  obtain c1 where run: "readAckBits (ACK h) (ACKBits h) c = Ret c1"
    and frame: "c1 = c\<lparr>pool := pool c1, wqe := wqe c1\<rparr>" and shape1: "sized c1"
    by blast
  have d1: "die c1 = die c" by (subst frame) simp
  from shape1 have nz1: "ring (rq c1) \<noteq> 0" by (simp add: sized_def)
  obtain c2 new where
    tr: "(if \<not> Unordered h then trackRead (Sequence h) c1 else Ret (c1, True)) = Ret (c2, new)"
    and d2: "die c2 = die c1" and shape2: "sized c2"
  proof (cases "Unordered h")
    case True
    with shape1 that show ?thesis by simp
  next
    case False
    let ?i = "slot (Sequence h) (rq c1)"
    show ?thesis
    proof (cases "rq c1 ! ?i = ucast (Sequence h)")
      case True
      with False nz1 shape1 that [of c1 False] show ?thesis by (simp add: trackRead_def)
    next
      case miss: False
      let ?c = "if GT (Sequence h + 1) (ri c1)
                then (clearReads (ri c1) (Sequence h) c1)\<lparr>ri := Sequence h + 1\<rparr> else c1"
      have "trackRead (Sequence h) c1 = Ret (?c\<lparr>rq := (rq ?c)[?i := ucast (Sequence h)]\<rparr>, True)"
        using nz1 miss by (simp add: trackRead_def Let_def)
      moreover have "die (?c\<lparr>rq := (rq ?c)[?i := ucast (Sequence h)]\<rparr>) = die c1"
        by (simp add: clearReads_def)
      moreover have "sized (?c\<lparr>rq := (rq ?c)[?i := ucast (Sequence h)]\<rparr>)"
        using shape1 by (simp add: clearReads_def sized_def ring_def length_clearRing)
      ultimately show ?thesis using False that by simp
    qed
  qed
  show ?thesis
  proof (cases new)
    case False
    with assms(3) run tr d1 d2 show ?thesis by (simp add: Read_def)
  next
    case True
    from trackUnacked_sized [OF shape2]
    obtain u where tu: "trackUnacked c2 = Ret (c2\<lparr>oui := u\<rparr>)" by blast
    let ?c3 = "c2\<lparr>oui := u\<rparr>"
    have shape3: "sized ?c3" using shape2 by (simp add: sized_def)
    have d3: "die ?c3 = die c" using d1 d2 by simp
    have read: "Read WriteTo now h bs c wakes =
      andThen (writeAcksIfNecessary WriteTo now ?c3 wakes) (\<lambda>(c4, err).
        case err of
          Some e \<Rightarrow> Ret (c4, Some (Errorf ''failed to write acks when necessary'' e))
        | None \<Rightarrow>
            if Empty h then Ret (c4, None)
            else
              (case ph c4 of
                 None \<Rightarrow> Ret (c4, None)
               | Some calls \<Rightarrow> Ret (c4\<lparr>ph := Some (calls @ [(Sequence h, bs)])\<rparr>, None)))"
      using run tr tu True by (simp add: Read_def)
    from assms(3) read obtain c4 err where
      w4: "writeAcksIfNecessary WriteTo now ?c3 wakes = Ret (c4, err)"
      by (cases "writeAcksIfNecessary WriteTo now ?c3 wakes") auto
    from writeAcksIfNecessary_sized [OF shape3 assms(2), of WriteTo now] w4
    obtain b where b: "b \<in> set (?c3 # wakes)" and kb: "kept b c4" by auto
    from kb have db: "die c4 = die b" by (simp add: kept_def)
    from assms(3) read w4 have "die c' = die c4"
      by (cases err; cases "Empty h"; cases "ph c4") auto
    with b db d3 show ?thesis by auto
  qed
qed

end
